theory Spec2Isabelle
  imports Main
begin

section \<open>Strings\<close>

text \<open>
  A JavaScript string is a sequence of UTF-16 code units. It is modelled as a
  \<^typ>\<open>string\<close>: one \<^typ>\<open>char\<close> stands for one code unit in the range 0..255.
  The built-in string methods that \<^verbatim>\<open>src/index.js\<close> calls are written out below.
\<close>

text \<open>\<^verbatim>\<open>s.startsWith(p)\<close>: the first \<^verbatim>\<open>p.length\<close> code units of \<^verbatim>\<open>s\<close> are \<^verbatim>\<open>p\<close>.\<close>

definition startsWith :: "string \<Rightarrow> string \<Rightarrow> bool" where
  "startsWith s p = (take (length p) s = p)"

text \<open>\<^verbatim>\<open>s.slice(n)\<close> for a start index \<^verbatim>\<open>n \<ge> 0\<close>: the code units from position \<^verbatim>\<open>n\<close> on.\<close>

definition slice :: "string \<Rightarrow> nat \<Rightarrow> string" where
  "slice s n = drop n s"

text \<open>
  \<^verbatim>\<open>s.split(sep)\<close> for a separator of one code unit: the pieces between the
  occurrences of the separator, in order; a string with \<open>k\<close> separators has \<open>k + 1\<close>
  pieces, and the empty string has the single piece \<^verbatim>\<open>""\<close>.
\<close>

fun js_split :: "char \<Rightarrow> string \<Rightarrow> string list" where
  "js_split sep [] = [[]]"
| "js_split sep (c # cs) =
     (if c = sep then [] # js_split sep cs
      else (case js_split sep cs of
              [] \<Rightarrow> [[c]]
            | piece # pieces \<Rightarrow> (c # piece) # pieces))"

text \<open>
  The code units \<^verbatim>\<open>String.prototype.trim\<close> strips, among those below 256: TAB, LF, VT,
  FF, CR, SPACE and NO-BREAK SPACE.
\<close>

definition isWhiteSpace :: "char \<Rightarrow> bool" where
  "isWhiteSpace c = (of_char c \<in> {9, 10, 11, 12, 13, 32, 160 :: nat})"

definition trim :: "string \<Rightarrow> string" where
  "trim s = rev (dropWhile isWhiteSpace (rev (dropWhile isWhiteSpace s)))"

text \<open>\<^verbatim>\<open>xs.join(sep)\<close>: the elements with the separator between neighbours.\<close>

fun join :: "string list \<Rightarrow> string \<Rightarrow> string" where
  "join [] sep = []"
| "join [x] sep = x"
| "join (x # y # ys) sep = x @ sep @ join (y # ys) sep"

section \<open>Selector Combiner\<close>

text \<open>
  \<^verbatim>\<open>combineSelectors\<close>, lines 8 to 14 of \<^verbatim>\<open>src/index.js\<close>:
  \<^verbatim>\<open>
  if (childSelector.startsWith('&')) {
    return `${parentSelector}${childSelector.slice(1)}`;
  }
  return `${parentSelector} ${childSelector}`;
  \<close>
\<close>

definition combineSelectors :: "string \<Rightarrow> string \<Rightarrow> string" where
  "combineSelectors parentSelector childSelector =
     (if startsWith childSelector ''&''
      then parentSelector @ slice childSelector 1
      else parentSelector @ '' '' @ childSelector)"

section \<open>The rule tree as a store\<close>

text \<open>
  The tree that the transform receives is a graph of mutable objects with parent
  back-references. Objects are addressed by natural numbers, and the store keeps one
  map per property. \<open>fresh\<close> is the next unused address: every object that exists has an
  address below it.

  \<^item> \<open>type\<close>: the node kind (\<^verbatim>\<open>node.type\<close>);
  \<^item> \<open>selector\<close>: the selector text, \<open>None\<close> where the property is undefined;
  \<^item> \<open>parent\<close>: the enclosing node, \<open>None\<close> where undefined;
  \<^item> \<open>nodes\<close>: the ordered children (the empty list for a node without a child array:
    iterating over it does nothing in either case);
  \<^item> \<open>props\<close>: every other own property (a declaration's property and value, an
    at-rule's name and parameters, a comment's text), opaque to the transform;
  \<^item> \<open>indexes\<close> and \<open>lastEach\<close>: the bookkeeping of the host library's iteration,
    per container the positions of the running iterators and the last iterator id.
\<close>

datatype node_type = Root | Rule | Decl | AtRule | Comment

record store =
  fresh :: nat
  type :: "nat \<Rightarrow> node_type"
  selector :: "nat \<Rightarrow> string option"
  parent :: "nat \<Rightarrow> nat option"
  nodes :: "nat \<Rightarrow> nat list"
  props :: "nat \<Rightarrow> string"
  indexes :: "nat \<Rightarrow> nat \<Rightarrow> int option"
  lastEach :: "nat \<Rightarrow> nat"

section \<open>Ancestor Selector-Set Builder\<close>

text \<open>
  \<^verbatim>\<open>buildFlattenedSelectors\<close>, lines 25 to 51. The argument is a reference that may be
  undefined (\<open>None\<close>). \<^verbatim>\<open>!rule.selector\<close> holds for an undefined selector and for the
  empty string. The two nested \<^verbatim>\<open>forEach\<close> loops push onto \<^verbatim>\<open>combinedSelectors\<close>: each
  is a \<^const>\<open>fold\<close> whose accumulator is that array. The recursion follows the parent
  references, which may form a cycle in an ill-formed store, so the function is partial:
  \<open>None\<close> means that the call does not return.
\<close>

partial_function (option) buildFlattenedSelectors :: "store \<Rightarrow> nat option \<Rightarrow> string list option" where
  "buildFlattenedSelectors st rule =
     (case rule of
        None \<Rightarrow> Some []
      | Some r \<Rightarrow>
          (case selector st r of
             None \<Rightarrow> Some []
           | Some text \<Rightarrow>
               if text = [] then Some []
               else
                 (let selectors = map trim (js_split CHR '','' text) in
                  Option.bind (buildFlattenedSelectors st (parent st r))
                    (\<lambda>parentSelectors.
                       if length parentSelectors = 0 then Some selectors
                       else Some
                         (fold (\<lambda>parentSelector combinedSelectors.
                                  fold (\<lambda>childSelector combinedSelectors.
                                          combinedSelectors @ [combineSelectors parentSelector childSelector])
                                    selectors combinedSelectors)
                            parentSelectors [])))))"

declare buildFlattenedSelectors.simps [code]

subsection \<open>Reference definition of the flattened selector set\<close>

text \<open>
  The specification's wording, independent of the code: the own selector set of a rule
  is its selector text cut at the commas, each segment trimmed.
\<close>

function segments :: "string \<Rightarrow> string list" where
  "segments s =
     (let seg = takeWhile (\<lambda>c. c \<noteq> CHR '','') s;
          rest = dropWhile (\<lambda>c. c \<noteq> CHR '','') s
      in case rest of [] \<Rightarrow> [seg] | _ # rest' \<Rightarrow> seg # segments rest')"
  by pat_completeness auto
termination
proof (relation "measure length")
  show "wf (measure length)" by simp
next
  fix s :: string and seg rest :: string and c rest'
  assume "rest = dropWhile (\<lambda>c. c \<noteq> CHR '','') s" and "rest = c # rest'"
  then have "length (c # rest') \<le> length s"
    using length_dropWhile_le [of "\<lambda>c. c \<noteq> CHR '','' " s] by simp
  then show "(rest', s) \<in> measure length" by simp
qed

declare segments.simps [simp del]

definition own_selectors :: "string \<Rightarrow> string list" where
  "own_selectors text = map trim (segments text)"

text \<open>
  The flattened set along a chain of selector texts, the rule's own text first, then its
  parent's, up to (not including) the first ancestor without selector text: the own set
  when the parent's flattened set is empty, else the cross product, parent-major.
\<close>

fun reference_flattened :: "string list \<Rightarrow> string list" where
  "reference_flattened [] = []"
| "reference_flattened (text # up) =
     (let own = own_selectors text; parentSet = reference_flattened up
      in if parentSet = [] then own
         else concat (map (\<lambda>p. map (\<lambda>c. combineSelectors p c) own) parentSet))"

text \<open>
  \<open>selector_chain st rule texts\<close>: following the parent references from \<open>rule\<close>, the
  selector texts met are \<open>texts\<close>, and the walk ends at an undefined reference or at a
  node whose selector text is undefined or empty.
\<close>

inductive selector_chain :: "store \<Rightarrow> nat option \<Rightarrow> string list \<Rightarrow> bool" where
  chain_undefined: "selector_chain st None []"
| chain_no_selector: "selector st r = None \<Longrightarrow> selector_chain st (Some r) []"
| chain_empty_selector: "selector st r = Some [] \<Longrightarrow> selector_chain st (Some r) []"
| chain_step:
    "selector st r = Some text \<Longrightarrow> text \<noteq> [] \<Longrightarrow> selector_chain st (parent st r) up
       \<Longrightarrow> selector_chain st (Some r) (text # up)"

text \<open>
  \<open>reaches_root st r\<close>: the parent chain of \<open>r\<close> is finite and ends at a root node, a node
  of type \<open>Root\<close> without selector text.
\<close>

inductive reaches_root :: "store \<Rightarrow> nat \<Rightarrow> bool" where
  at_root: "type st r = Root \<Longrightarrow> selector st r = None \<Longrightarrow> reaches_root st r"
| below_root: "parent st r = Some p \<Longrightarrow> reaches_root st p \<Longrightarrow> reaches_root st r"

section \<open>Outcomes of effectful operations\<close>

text \<open>
  An operation on the store returns normally with a value, throws, or does not return
  within the recursion depth it was given (the fuel): \<open>Unfinished\<close> stands for a loop
  or recursion that was cut off.
\<close>

datatype error = TypeError

datatype 'a outcome = Returns 'a | Throws error | Unfinished

definition and_then :: "'a outcome \<Rightarrow> ('a \<Rightarrow> 'b outcome) \<Rightarrow> 'b outcome" where
  "and_then m f = (case m of Returns x \<Rightarrow> f x | Throws e \<Rightarrow> Throws e | Unfinished \<Rightarrow> Unfinished)"

section \<open>The host library's tree operations\<close>

text \<open>
  Modelled from the spec: the operations \<^verbatim>\<open>walkRules\<close>, \<^verbatim>\<open>append\<close>, \<^verbatim>\<open>clone\<close> and
  \<^verbatim>\<open>remove\<close> belong to the host library (PostCSS) and are not part of \<^verbatim>\<open>src/\<close>.
  The specification requires of the tree "operations to clone a node (preserving
  children, overriding selector), append a child, and remove a node from its parent",
  and a rule walk in pre-order, document order. They are written out here as the library
  documents them: a container's iteration is safe under mutation of its child array,
  because removing a child moves the positions of the running iterators.
\<close>

text \<open>\<^verbatim>\<open>xs.indexOf(x)\<close>: the first position of \<open>x\<close>, \<open>None\<close> for JavaScript's \<open>-1\<close>.\<close>

fun indexOf :: "nat list \<Rightarrow> nat \<Rightarrow> nat option" where
  "indexOf [] x = None"
| "indexOf (y # ys) x = (if y = x then Some 0 else map_option Suc (indexOf ys x))"

text \<open>
  \<^verbatim>\<open>container.removeChild(child)\<close>: clears the child's parent, cuts it out of the child
  array, and moves every running iterator of the container that stands at or after the
  child one position back. A child that is not in the array makes the library write to
  a property of \<^verbatim>\<open>undefined\<close>, which throws.
\<close>

definition removeChild :: "nat \<Rightarrow> nat \<Rightarrow> store \<Rightarrow> store outcome" where
  "removeChild container child st =
     (case indexOf (nodes st container) child of
        None \<Rightarrow> Throws TypeError
      | Some i \<Rightarrow>
          Returns (st\<lparr>
            parent := (parent st)(child := None),
            nodes := (nodes st)(container :=
              take i (nodes st container) @ drop (Suc i) (nodes st container)),
            indexes := (indexes st)(container :=
              (\<lambda>id. map_option (\<lambda>index. if index \<ge> int i then index - 1 else index)
                      (indexes st container id)))\<rparr>))"

text \<open>\<^verbatim>\<open>node.remove()\<close>: removes the node from its parent, if it has one.\<close>

definition remove_node :: "nat \<Rightarrow> store \<Rightarrow> store outcome" where
  "remove_node node st =
     and_then (case parent st node of
                 Some p \<Rightarrow> removeChild p node st
               | None \<Rightarrow> Returns st)
       (\<lambda>st1. Returns (st1\<lparr>parent := (parent st1)(node := None)\<rparr>))"

text \<open>
  \<^verbatim>\<open>container.append(child)\<close>: a child that still has a parent is removed from it
  first; then its parent is set and it is pushed onto the end of the child array.
\<close>

definition append_node :: "nat \<Rightarrow> nat \<Rightarrow> store \<Rightarrow> store outcome" where
  "append_node container child st =
     and_then (case parent st child of
                 Some p \<Rightarrow> removeChild p child st
               | None \<Rightarrow> Returns st)
       (\<lambda>st1. Returns (st1\<lparr>
          parent := (parent st1)(child := Some container),
          nodes := (nodes st1)(container := nodes st1 container @ [child])\<rparr>))"

text \<open>
  \<^verbatim>\<open>cloneNode(obj, parent)\<close>: a new object with a copy of every own property of
  \<open>obj\<close>; the children are cloned in turn with the new object as their parent. The
  recursion follows the child arrays and takes the fuel as its depth bound.
\<close>

fun cloneNode :: "nat \<Rightarrow> nat \<Rightarrow> nat option \<Rightarrow> store \<Rightarrow> (nat \<times> store) outcome"
  and cloneNodes :: "nat \<Rightarrow> nat list \<Rightarrow> nat \<Rightarrow> store \<Rightarrow> (nat list \<times> store) outcome" where
  "cloneNode 0 obj par st = Unfinished"
| "cloneNode (Suc n) obj par st =
     (let cloned = fresh st;
          st1 = st\<lparr>
            fresh := Suc cloned,
            type := (type st)(cloned := type st obj),
            selector := (selector st)(cloned := selector st obj),
            parent := (parent st)(cloned := par),
            nodes := (nodes st)(cloned := []),
            props := (props st)(cloned := props st obj),
            indexes := (indexes st)(cloned := indexes st obj),
            lastEach := (lastEach st)(cloned := lastEach st obj)\<rparr>
      in and_then (cloneNodes n (nodes st obj) cloned st1)
           (\<lambda>(children, st2).
              Returns (cloned, st2\<lparr>nodes := (nodes st2)(cloned := children)\<rparr>)))"
| "cloneNodes n [] par st = Returns ([], st)"
| "cloneNodes n (child # children) par st =
     and_then (cloneNode n child (Some par) st)
       (\<lambda>(c, st1). and_then (cloneNodes n children par st1)
          (\<lambda>(cs, st2). Returns (c # cs, st2)))"

text \<open>
  \<^verbatim>\<open>node.clone({ selector: s })\<close>: the deep copy, without a parent, with its selector
  text overridden.
\<close>

definition clone :: "nat \<Rightarrow> nat \<Rightarrow> string \<Rightarrow> store \<Rightarrow> (nat \<times> store) outcome" where
  "clone n node sel st =
     and_then (cloneNode n node None st)
       (\<lambda>(cloned, st1). Returns (cloned, st1\<lparr>selector := (selector st1)(cloned := Some sel)\<rparr>))"

text \<open>The node types that are containers, which have a \<^verbatim>\<open>walk\<close> method.\<close>

definition isContainer :: "node_type \<Rightarrow> bool" where
  "isContainer t = (t = Root \<or> t = Rule \<or> t = AtRule)"

section \<open>Tree Flattener\<close>

text \<open>
  The loop of lines 86 to 95: from \<open>currentParent\<close> upward, a node of type \<open>Rule\<close>
  without children is removed and the loop continues with the parent it had; any other
  node ends the loop.
  \<^verbatim>\<open>
  while (currentParent && currentParent.type === 'rule') {
    if (currentParent.nodes.length > 0) { break; }
    const newParent = currentParent.parent;
    currentParent.remove();
    currentParent = newParent;
  }
  \<close>
\<close>

fun removeEmptyParents :: "nat \<Rightarrow> nat option \<Rightarrow> store \<Rightarrow> store outcome" where
  "removeEmptyParents 0 currentParent st = Unfinished"
| "removeEmptyParents (Suc n) None st = Returns st"
| "removeEmptyParents (Suc n) (Some cp) st =
     (if type st cp = Rule then
        if length (nodes st cp) > 0 then Returns st
        else
          (let newParent = parent st cp
           in and_then (remove_node cp st) (\<lambda>st1. removeEmptyParents n newParent st1))
      else Returns st)"

text \<open>
  The callback of \<^verbatim>\<open>walkRules\<close>, lines 73 to 96, for one visited rule.
  \<^verbatim>\<open>parentRule.type\<close> throws when the rule has no parent.
  \<^verbatim>\<open>
  const parentRule = rule.parent;
  if (parentRule.type !== 'root' && rule.nodes.some((node) => node.type === 'decl')) {
    const selectorsForRule = buildFlattenedSelectors(rule);
    root.append(rule.clone({ selector: selectorsForRule.join(',') }));
    rule.remove();
  }
  let currentParent = parentRule;
  while ...
  \<close>
\<close>

definition visitRule :: "nat \<Rightarrow> nat \<Rightarrow> nat \<Rightarrow> store \<Rightarrow> store outcome" where
  "visitRule n root rule st =
     (case parent st rule of
        None \<Rightarrow> Throws TypeError
      | Some parentRule \<Rightarrow>
          and_then
            (if type st parentRule \<noteq> Root \<and> list_ex (\<lambda>node. type st node = Decl) (nodes st rule)
             then
               (case buildFlattenedSelectors st (Some rule) of
                  None \<Rightarrow> Unfinished
                | Some selectorsForRule \<Rightarrow>
                    and_then (clone n rule (join selectorsForRule '','') st)
                      (\<lambda>(cloned, st1). and_then (append_node root cloned st1) (\<lambda>st2. remove_node rule st2)))
             else Returns st)
            (\<lambda>st3. removeEmptyParents n (Some parentRule) st3))"

text \<open>
  \<^verbatim>\<open>container.walkRules(callback)\<close> with the callback above. \<open>walkRules\<close> opens an
  iterator on the container and runs \<open>each\<close>, the library's loop
  \<^verbatim>\<open>
  while (this.indexes[iterator] < this.nodes.length) {
    index = this.indexes[iterator]
    callback(this.nodes[index], index)
    this.indexes[iterator] += 1
  }
  delete this.indexes[iterator]
  \<close>
  whose callback calls \<open>visitRule\<close> on a child of type \<open>Rule\<close> and then walks the child
  if it is a container (also when the callback has just removed it from the tree).
\<close>

fun walkRules :: "nat \<Rightarrow> nat \<Rightarrow> nat \<Rightarrow> store \<Rightarrow> store outcome"
  and each :: "nat \<Rightarrow> nat \<Rightarrow> nat \<Rightarrow> nat \<Rightarrow> store \<Rightarrow> store outcome" where
  "walkRules 0 root container st = Unfinished"
| "walkRules (Suc n) root container st =
     (let iterator = lastEach st container + 1;
          st1 = st\<lparr>
            lastEach := (lastEach st)(container := iterator),
            indexes := (indexes st)(container := (indexes st container)(iterator := Some 0))\<rparr>
      in and_then (each n root container iterator st1)
           (\<lambda>st2. Returns (st2\<lparr>
              indexes := (indexes st2)(container := (indexes st2 container)(iterator := None))\<rparr>)))"
| "each 0 root container iterator st = Unfinished"
| "each (Suc n) root container iterator st =
     (case indexes st container iterator of
        None \<Rightarrow> Returns st
      | Some index \<Rightarrow>
          if index < int (length (nodes st container)) then
            if index < 0 then Throws TypeError
            else
              (let child = nodes st container ! nat index
               in and_then
                    (if type st child = Rule then visitRule n root child st else Returns st)
                    (\<lambda>st1. and_then
                       (if isContainer (type st1 child) then walkRules n root child st1
                        else Returns st1)
                       (\<lambda>st2. each n root container iterator
                          (st2\<lparr>indexes := (indexes st2)(container :=
                             (indexes st2 container)(iterator :=
                                map_option (\<lambda>i. i + 1) (indexes st2 container iterator)))\<rparr>))))
          else Returns st)"

text \<open>\<^verbatim>\<open>OnceExit(root)\<close>, lines 71 to 97: one rule walk from the root.\<close>

definition OnceExit :: "nat \<Rightarrow> nat \<Rightarrow> store \<Rightarrow> store outcome" where
  "OnceExit n root st = walkRules n root root st"

section \<open>Well-formed trees\<close>

text \<open>
  The data model of the specification, as predicates on the store. In a well-formed
  store with root \<open>root\<close>, among the allocated objects:
  \<^item> child arrays hold no object twice, hold allocated objects only, and every child
    names its container as its parent (\<open>children_ok\<close>);
  \<^item> every parent reference points to an allocated object that holds the node in its
    child array (\<open>parents_ok\<close>);
  \<^item> declarations and comments have no children (\<open>leaves_ok\<close>);
  \<^item> \<open>root\<close> is allocated, is the only object of type \<open>Root\<close>, and has no parent
    (\<open>root_ok\<close>).
\<close>

definition has_decl :: "store \<Rightarrow> nat \<Rightarrow> bool" where
  "has_decl st rule = list_ex (\<lambda>node. type st node = Decl) (nodes st rule)"

definition children_ok :: "store \<Rightarrow> bool" where
  "children_ok st = (\<forall>c<fresh st. distinct (nodes st c)
      \<and> (\<forall>x\<in>set (nodes st c). x < fresh st \<and> parent st x = Some c))"

definition parents_ok :: "store \<Rightarrow> bool" where
  "parents_ok st = (\<forall>x<fresh st. \<forall>p. parent st x = Some p \<longrightarrow> p < fresh st \<and> x \<in> set (nodes st p))"

definition leaves_ok :: "store \<Rightarrow> bool" where
  "leaves_ok st = (\<forall>i<fresh st. \<not> isContainer (type st i) \<longrightarrow> nodes st i = [])"

definition root_ok :: "store \<Rightarrow> nat \<Rightarrow> bool" where
  "root_ok st root = (root < fresh st \<and> type st root = Root \<and> parent st root = None
      \<and> (\<forall>i<fresh st. type st i = Root \<longrightarrow> i = root))"

definition well_formed :: "store \<Rightarrow> nat \<Rightarrow> bool" where
  "well_formed st root = (children_ok st \<and> parents_ok st \<and> leaves_ok st \<and> root_ok st root)"

text \<open>
  \<open>descendant st c d\<close>: \<open>d\<close> is \<open>c\<close> or lies below \<open>c\<close> in the tree of child arrays.
\<close>

inductive descendant :: "store \<Rightarrow> nat \<Rightarrow> nat \<Rightarrow> bool" for st :: store where
  desc_self: "descendant st c c"
| desc_child: "x \<in> set (nodes st c) \<Longrightarrow> descendant st x d \<Longrightarrow> descendant st c d"

text \<open>
  \<open>nested_decl_rule st c x\<close>: \<open>x\<close> is a rule with a declaration child, and \<open>c\<close> is not of
  type \<open>Root\<close>; for a child \<open>x\<close> of \<open>c\<close> this is the condition of line 77 under which the
  transform promotes \<open>x\<close>. A container is \<open>clean\<close> when none of its children is such a
  rule, and the tree below \<open>root\<close> is \<open>flat\<close> when every container in it is clean.
\<close>

definition nested_decl_rule :: "store \<Rightarrow> nat \<Rightarrow> nat \<Rightarrow> bool" where
  "nested_decl_rule st c x = (type st x = Rule \<and> has_decl st x \<and> type st c \<noteq> Root)"

definition clean :: "store \<Rightarrow> nat \<Rightarrow> bool" where
  "clean st c = (\<forall>x\<in>set (nodes st c). \<not> nested_decl_rule st c x)"

definition flat :: "store \<Rightarrow> nat \<Rightarrow> bool" where
  "flat st root = (\<forall>d. descendant st root d \<longrightarrow> clean st d)"

text \<open>
  \<open>evolves st st'\<close> relates a store to a later store of the same run. For every object
  allocated in \<open>st\<close>: its type, selector text and other properties are the same; the
  child array of a node that is not the root has lost children at most; a child is only
  lost if it is a rule that was promoted (its container is not the root) or that had
  become empty; and every running iterator that stood inside its child array still
  does, over a prefix of children that has not grown.
\<close>

definition evolves :: "store \<Rightarrow> store \<Rightarrow> bool" where
  "evolves st st' = (fresh st \<le> fresh st' \<and> (\<forall>i<fresh st.
      type st' i = type st i \<and> selector st' i = selector st i \<and> props st' i = props st i
    \<and> lastEach st i \<le> lastEach st' i
    \<and> (type st i \<noteq> Root \<longrightarrow> set (nodes st' i) \<subseteq> set (nodes st i))
    \<and> (\<forall>y\<in>set (nodes st i). y < fresh st \<longrightarrow>
          y \<in> set (nodes st' i) \<or> type st y = Rule \<and> (type st i \<noteq> Root \<or> nodes st' y = []))
    \<and> (\<forall>it idx. it \<le> lastEach st i \<and> indexes st i it = Some idx
            \<and> idx + 1 \<le> int (length (nodes st i)) \<longrightarrow>
          (\<exists>idx'. indexes st' i it = Some idx' \<and> idx' + 1 \<le> int (length (nodes st' i))
             \<and> set (take (nat (idx' + 1)) (nodes st' i)) \<subseteq> set (take (nat (idx + 1)) (nodes st i))))))"

text \<open>
  \<open>unchanged_below k st st'\<close>: the objects below address \<open>k\<close> are the same in both stores.
  \<open>region_ok lo tops par st\<close>: the objects from address \<open>lo\<close> on form trees of their own,
  whose roots are \<open>tops\<close> with parent \<open>par\<close>, none of type \<open>Root\<close>.
\<close>

definition unchanged_below :: "nat \<Rightarrow> store \<Rightarrow> store \<Rightarrow> bool" where
  "unchanged_below k st st' = (\<forall>i<k.
      type st' i = type st i \<and> selector st' i = selector st i \<and> props st' i = props st i
    \<and> parent st' i = parent st i \<and> nodes st' i = nodes st i
    \<and> indexes st' i = indexes st i \<and> lastEach st' i = lastEach st i)"

definition region_ok :: "nat \<Rightarrow> nat list \<Rightarrow> nat option \<Rightarrow> store \<Rightarrow> bool" where
  "region_ok lo tops par st = (\<forall>j. lo \<le> j \<and> j < fresh st \<longrightarrow>
      distinct (nodes st j)
    \<and> (\<forall>x\<in>set (nodes st j). lo \<le> x \<and> x < fresh st \<and> parent st x = Some j)
    \<and> (if j \<in> set tops then parent st j = par
        else (\<exists>p. lo \<le> p \<and> p < fresh st \<and> parent st j = Some p \<and> j \<in> set (nodes st p)))
    \<and> type st j \<noteq> Root \<and> (\<not> isContainer (type st j) \<longrightarrow> nodes st j = []))"

section \<open>Trees\<close>

text \<open>
  The abstract view of a subtree of the store: a node carries its type, its selector
  text, its other properties and its children. \<open>tree_at st lo i t\<close> holds when the
  objects reachable from \<open>i\<close> through the child arrays are allocated at addresses from
  \<open>lo\<close> on and form the finite tree \<open>t\<close>. \<open>height\<close> is the depth of recursion that a
  deep copy of the tree needs.
\<close>

datatype tree = Node node_type "string option" string "tree list"

fun height :: "tree \<Rightarrow> nat" where
  "height (Node ty sel pr ks) = Suc (fold max (map height ks) 0)"

inductive tree_at :: "store \<Rightarrow> nat \<Rightarrow> nat \<Rightarrow> tree \<Rightarrow> bool" for st :: store and lo :: nat where
  tree_at_node:
    "lo \<le> i \<Longrightarrow> i < fresh st \<Longrightarrow> type st i = ty \<Longrightarrow> selector st i = sel \<Longrightarrow> props st i = pr
       \<Longrightarrow> list_all2 (tree_at st lo) (nodes st i) ks
       \<Longrightarrow> tree_at st lo i (Node ty sel pr ks)"

text \<open>
  \<open>ancestor st x a\<close>: \<open>a\<close> is \<open>x\<close> or is reached from \<open>x\<close> along the parent references.
\<close>

inductive ancestor :: "store \<Rightarrow> nat \<Rightarrow> nat \<Rightarrow> bool" for st :: store where
  anc_self: "ancestor st x x"
| anc_step: "parent st x = Some p \<Longrightarrow> ancestor st p a \<Longrightarrow> ancestor st x a"


text \<open>
  \<open>nested_in_rule st x\<close>: \<open>x\<close> is a rule with a declaration child and one of the nodes
  above it is a rule. A store is \<open>rule_flat\<close> when it has no such rule.
\<close>

definition nested_in_rule :: "store \<Rightarrow> nat \<Rightarrow> bool" where
  "nested_in_rule st x = (type st x = Rule \<and> has_decl st x
      \<and> (\<exists>p a. parent st x = Some p \<and> ancestor st p a \<and> type st a = Rule))"

definition rule_flat :: "store \<Rightarrow> bool" where
  "rule_flat st = (\<forall>x<fresh st. \<not> nested_in_rule st x)"

text \<open>
  \<open>walk_fuel t\<close> is fuel that suffices for a rule walk over the tree \<open>t\<close> in which no
  visit changes the tree. \<open>same_tree st st'\<close>: the two stores hold the same objects with
  the same types, selectors, properties, parents and children; they may differ in the
  iterators only. \<open>iterators_kept c it st st'\<close>: no iterator of \<open>st\<close> has been touched in
  \<open>st'\<close>, iterator \<open>it\<close> of container \<open>c\<close> apart.
\<close>

fun walk_fuel :: "tree \<Rightarrow> nat" where
  "walk_fuel (Node ty sel pr ks) = Suc (Suc (length ks + fold max (map walk_fuel ks) 0))"

definition same_tree :: "store \<Rightarrow> store \<Rightarrow> bool" where
  "same_tree st st' = (fresh st' = fresh st \<and> type st' = type st \<and> selector st' = selector st
     \<and> props st' = props st \<and> parent st' = parent st \<and> nodes st' = nodes st)"

definition iterators_kept :: "nat \<Rightarrow> nat \<Rightarrow> store \<Rightarrow> store \<Rightarrow> bool" where
  "iterators_kept c it st st' = (\<forall>c'. lastEach st c' \<le> lastEach st' c'
     \<and> (\<forall>it'. it' \<le> lastEach st c' \<and> (c' = c \<longrightarrow> it' \<noteq> it) \<longrightarrow> indexes st' c' it' = indexes st c' it'))"

section \<open>Example stores\<close>

text \<open>
  The tree of \<^verbatim>\<open>.a, .b { &:hover, &:focus { x: y } }\<close>: the root at address 0, the outer
  rule at 1, the nested rule at 2, its declaration at 3.
\<close>

definition cross_store :: store where
  "cross_store = \<lparr>fresh = 4,
     type = (\<lambda>_. Comment)(0 := Root, 1 := Rule, 2 := Rule, 3 := Decl),
     selector = (\<lambda>_. None)(1 := Some ''.a, .b'', 2 := Some ''&:hover, &:focus''),
     parent = (\<lambda>_. None)(1 := Some 0, 2 := Some 1, 3 := Some 2),
     nodes = (\<lambda>_. [])(0 := [1], 1 := [2], 2 := [3]),
     props = (\<lambda>_. [])(3 := ''x: y''),
     indexes = (\<lambda>_ _. None),
     lastEach = (\<lambda>_. 0)\<rparr>"

text \<open>
  The tree of \<^verbatim>\<open>.a { .b { x: y } }\<close>: the root at address 0, the outer rule at 1, the
  nested rule at 2, its declaration at 3.
\<close>

definition nested_store :: store where
  "nested_store = \<lparr>fresh = 4,
     type = (\<lambda>_. Comment)(0 := Root, 1 := Rule, 2 := Rule, 3 := Decl),
     selector = (\<lambda>_. None)(1 := Some ''.a'', 2 := Some ''.b''),
     parent = (\<lambda>_. None)(1 := Some 0, 2 := Some 1, 3 := Some 2),
     nodes = (\<lambda>_. [])(0 := [1], 1 := [2], 2 := [3]),
     props = (\<lambda>_. [])(3 := ''x: y''),
     indexes = (\<lambda>_ _. None),
     lastEach = (\<lambda>_. 0)\<rparr>"

text \<open>
  The flat tree of \<^verbatim>\<open>.a { x: y }\<close>: the root at address 0, the rule at 1, its
  declaration at 2.
\<close>

definition flat_store :: store where
  "flat_store = \<lparr>fresh = 3,
     type = (\<lambda>_. Comment)(0 := Root, 1 := Rule, 2 := Decl),
     selector = (\<lambda>_. None)(1 := Some ''.a''),
     parent = (\<lambda>_. None)(1 := Some 0, 2 := Some 1),
     nodes = (\<lambda>_. [])(0 := [1], 1 := [2]),
     props = (\<lambda>_. [])(2 := ''x: y''),
     indexes = (\<lambda>_ _. None),
     lastEach = (\<lambda>_. 0)\<rparr>"


text \<open>
  The tree of \<^verbatim>\<open>@media print { .a { x: y } }\<close>: the root at address 0, the at-rule at 1,
  the rule at 2, its declaration at 3.
\<close>

definition media_store :: store where
  "media_store = \<lparr>fresh = 4,
     type = (\<lambda>_. Comment)(0 := Root, 1 := AtRule, 2 := Rule, 3 := Decl),
     selector = (\<lambda>_. None)(2 := Some ''.a''),
     parent = (\<lambda>_. None)(1 := Some 0, 2 := Some 1, 3 := Some 2),
     nodes = (\<lambda>_. [])(0 := [1], 1 := [2], 2 := [3]),
     props = (\<lambda>_. [])(1 := ''media print'', 3 := ''x: y''),
     indexes = (\<lambda>_ _. None),
     lastEach = (\<lambda>_. 0)\<rparr>"

section \<open>Properties of the selector functions\<close>

lemma startsWith_amp: "startsWith c ''&'' = (c \<noteq> [] \<and> hd c = CHR ''&'')"
  by (cases c) (simp_all add: startsWith_def)

text \<open>
  C3. If the child selector starts with the character \<open>&\<close>, the combination is the
  parent selector followed directly by the child selector without its leading \<open>&\<close>;
  otherwise it is the parent selector, one space, and the child selector. In particular
  \<open>.a\<close> with \<open>&:hover\<close> gives \<open>.a:hover\<close>, and \<open>.a\<close> with \<open>.b\<close> gives \<open>.a .b\<close>.
\<close>

theorem combineSelectors_cases:
  "combineSelectors p (CHR ''&'' # rest) = p @ rest
   \<and> combineSelectors p c =
       (if c \<noteq> [] \<and> hd c = CHR ''&'' then p @ tl c else p @ '' '' @ c)
   \<and> combineSelectors ''.a'' ''&:hover'' = ''.a:hover''
   \<and> combineSelectors ''.a'' ''.b'' = ''.a .b''"
  by (simp add: combineSelectors_def startsWith_amp slice_def drop_Suc)

subsection \<open>Splitting at commas\<close>

lemma segments_Nil: "segments [] = [[]]"
  by (subst segments.simps) simp

lemma segments_comma: "segments (CHR '','' # cs) = [] # segments cs"
  by (subst segments.simps) simp

lemma segments_other:
  assumes "c \<noteq> CHR '',''"
  shows "segments (c # cs) =
      (case segments cs of [] \<Rightarrow> [[c]] | piece # pieces \<Rightarrow> (c # piece) # pieces)"
proof (cases "dropWhile (\<lambda>c. c \<noteq> CHR '','') cs")
  case Nil
  show ?thesis
    by (subst segments.simps, subst (2) segments.simps) (simp add: Let_def Nil assms)
next
  case (Cons d rest)
  show ?thesis
    by (subst segments.simps, subst (2) segments.simps) (simp add: Let_def Cons assms)
qed

lemma js_split_segments: "js_split CHR '','' s = segments s"
  by (induction s) (simp_all add: segments_Nil segments_comma segments_other)

subsection \<open>The two loops as a cross product\<close>

lemma fold_push:
  "fold (\<lambda>c acc. acc @ [f c]) own acc = acc @ map f own"
  by (induction own arbitrary: acc) simp_all

lemma fold_cross:
  "fold (\<lambda>p acc. fold (\<lambda>c acc. acc @ [f p c]) own acc) ps acc
     = acc @ concat (map (\<lambda>p. map (\<lambda>c. f p c) own) ps)"
  by (induction ps arbitrary: acc) (simp_all add: fold_push)

lemma length_cross:
  "length (concat (map (\<lambda>p. map (f p) own) ps)) = length ps * length own"
  by (induction ps) simp_all

lemma buildFlattenedSelectors_None: "buildFlattenedSelectors st None = Some []"
  by (simp add: buildFlattenedSelectors.simps)

lemma buildFlattenedSelectors_no_selector:
  "selector st r = None \<or> selector st r = Some [] \<Longrightarrow> buildFlattenedSelectors st (Some r) = Some []"
  by (auto simp add: buildFlattenedSelectors.simps)

lemma buildFlattenedSelectors_step:
  assumes "selector st r = Some sel" and "sel \<noteq> []"
    and "buildFlattenedSelectors st (parent st r) = Some ps"
  shows "buildFlattenedSelectors st (Some r) =
    Some (if ps = [] then own_selectors sel
          else concat (map (\<lambda>p. map (\<lambda>c. combineSelectors p c) (own_selectors sel)) ps))"
  using assms
  by (subst buildFlattenedSelectors.simps)
     (simp add: own_selectors_def js_split_segments fold_cross)

lemma buildFlattenedSelectors_chain:
  "selector_chain st rule sels \<Longrightarrow>
     buildFlattenedSelectors st rule = Some (reference_flattened sels)"
proof (induction rule: selector_chain.induct)
  case (chain_undefined st)
  show ?case by (simp add: buildFlattenedSelectors_None)
next
  case (chain_no_selector st r)
  then show ?case by (simp add: buildFlattenedSelectors_no_selector)
next
  case (chain_empty_selector st r)
  then show ?case by (simp add: buildFlattenedSelectors_no_selector)
next
  case (chain_step st r sel up)
  then show ?case
    by (simp add: buildFlattenedSelectors_step Let_def)
qed

text \<open>Evaluation rules for concrete inputs.\<close>

lemmas selector_eval =
  own_selectors_def segments_Nil segments_comma segments_other trim_def isWhiteSpace_def
  combineSelectors_def startsWith_def slice_def

text \<open>
  C2. For a rule with non-empty selector text, \<open>buildFlattenedSelectors\<close> returns the
  reference value along its selector chain: the own selector set is the text split at
  commas and trimmed, in order; when the parent's flattened set is empty the result is
  the own set; otherwise it is the cross product of \<open>combineSelectors\<close>, parent selectors
  in the outer loop and own selectors in the inner loop, and its length is the product
  of the two lengths.
\<close>

theorem buildFlattenedSelectors_reference:
  assumes "selector_chain st (Some r) (sel # up)"
  shows "buildFlattenedSelectors st (Some r) = Some (reference_flattened (sel # up))
    \<and> (if reference_flattened up = []
        then reference_flattened (sel # up) = own_selectors sel
        else reference_flattened (sel # up) =
               concat (map (\<lambda>p. map (\<lambda>c. combineSelectors p c) (own_selectors sel))
                         (reference_flattened up))
             \<and> length (reference_flattened (sel # up)) =
                 length (reference_flattened up) * length (own_selectors sel))"
  using buildFlattenedSelectors_chain [OF assms] by (simp add: Let_def length_cross)

theorem buildFlattenedSelectors_reference_witness:
  "selector_chain cross_store (Some 2) [''&:hover, &:focus'', ''.a, .b'']
   \<and> buildFlattenedSelectors cross_store (Some 2)
       = Some [''.a:hover'', ''.a:focus'', ''.b:hover'', ''.b:focus'']"
proof -
  have p1: "parent cross_store 1 = Some 0" and p2: "parent cross_store 2 = Some 1"
    by (simp_all add: cross_store_def)
  have "selector_chain cross_store (Some 0) []"
    by (rule chain_no_selector) (simp add: cross_store_def)
  then have root: "selector_chain cross_store (parent cross_store 1) []"
    by (simp only: p1)
  have "selector_chain cross_store (Some 1) [''.a, .b'']"
    by (rule chain_step [OF _ _ root]) (simp_all add: cross_store_def)
  then have outer: "selector_chain cross_store (parent cross_store 2) [''.a, .b'']"
    by (simp only: p2)
  have chain: "selector_chain cross_store (Some 2) [''&:hover, &:focus'', ''.a, .b'']"
    by (rule chain_step [OF _ _ outer]) (simp_all add: cross_store_def)
  have "reference_flattened [''&:hover, &:focus'', ''.a, .b'']
      = [''.a:hover'', ''.a:focus'', ''.b:hover'', ''.b:focus'']"
    by (simp add: selector_eval)
  with buildFlattenedSelectors_reference [OF chain] chain show ?thesis by simp
qed

text \<open>
  C7. \<open>buildFlattenedSelectors\<close> returns the empty sequence when its argument is absent,
  and when the argument's selector text is absent or empty: it returns, and does not
  fail.
\<close>

theorem buildFlattenedSelectors_absent:
  "buildFlattenedSelectors st None = Some []
   \<and> (selector st r = None \<or> selector st r = Some [] \<longrightarrow>
        buildFlattenedSelectors st (Some r) = Some [])"
  by (simp add: buildFlattenedSelectors_None buildFlattenedSelectors_no_selector)

theorem buildFlattenedSelectors_absent_witness:
  "selector cross_store 0 = None \<and> buildFlattenedSelectors cross_store (Some 0) = Some []"
proof -
  have none: "selector cross_store 0 = None" by (simp add: cross_store_def)
  with buildFlattenedSelectors_absent [of cross_store 0] show ?thesis by simp
qed

text \<open>
  C9. For a rule whose parent chain is finite and ends at a root node (a node of type
  \<open>Root\<close> without selector text), \<open>buildFlattenedSelectors\<close> returns a sequence.
\<close>

theorem buildFlattenedSelectors_terminates:
  assumes "reaches_root st r"
  shows "\<exists>sels. buildFlattenedSelectors st (Some r) = Some sels"
  using assms
proof (induction rule: reaches_root.induct)
  case (at_root st r)
  then show ?case by (simp add: buildFlattenedSelectors_no_selector)
next
  case (below_root st r p)
  then obtain ps where ps: "buildFlattenedSelectors st (parent st r) = Some ps" by auto
  show ?case
  proof (cases "selector st r")
    case None
    then show ?thesis by (simp add: buildFlattenedSelectors_no_selector)
  next
    case (Some sel)
    show ?thesis
    proof (cases "sel = []")
      case True
      with Some show ?thesis by (simp add: buildFlattenedSelectors_no_selector)
    next
      case False
      with Some ps show ?thesis by (simp add: buildFlattenedSelectors_step)
    qed
  qed
qed

theorem buildFlattenedSelectors_terminates_witness:
  "reaches_root cross_store 2 \<and> (\<exists>sels. buildFlattenedSelectors cross_store (Some 2) = Some sels)"
proof -
  have "reaches_root cross_store 0"
    by (rule reaches_root.intros(1)) (simp_all add: cross_store_def)
  then have "reaches_root cross_store 1"
    by (rule reaches_root.intros(2) [rotated]) (simp add: cross_store_def)
  then have reach: "reaches_root cross_store 2"
    by (rule reaches_root.intros(2) [rotated]) (simp add: cross_store_def)
  with buildFlattenedSelectors_terminates [OF reach] show ?thesis by simp
qed

text \<open>
  Outside that precondition the call need not return: on a rule that is its own parent
  the recursion never ends.
\<close>

lemma buildFlattenedSelectors_cycle:
  assumes "parent st r = Some r" and "selector st r = Some sel" and "sel \<noteq> []"
  shows "buildFlattenedSelectors st (Some r) = None"
proof (rule ccontr)
  assume "buildFlattenedSelectors st (Some r) \<noteq> None"
  then obtain y where y: "buildFlattenedSelectors st (Some r) = Some y" by auto
  have "\<not> (st = st \<and> Some r = Some r)"
    by (rule buildFlattenedSelectors.raw_induct
          [where P = "\<lambda>st' rule y. \<not> (st' = st \<and> rule = Some r)", OF _ y])
       (use assms in \<open>auto split: option.splits if_splits simp: Let_def bind_eq_Some_conv\<close>)
  then show False by simp
qed

section \<open>Properties of the tree operations\<close>

section \<open>Lists\<close>

lemma indexOf_Some_iff:
  "indexOf xs x = Some i \<longleftrightarrow> i < length xs \<and> xs ! i = x \<and> x \<notin> set (take i xs)"
proof (induction xs arbitrary: i)
  case Nil
  show ?case by simp
next
  case (Cons y ys)
  show ?case
  proof (cases "y = x")
    case True
    then show ?thesis by (cases i) auto
  next
    case False
    then show ?thesis using Cons by (cases i) auto
  qed
qed

lemma indexOf_None_iff: "indexOf xs x = None \<longleftrightarrow> x \<notin> set xs"
  by (induction xs) auto

lemma indexOf_remove1:
  "indexOf xs x = Some i \<Longrightarrow> take i xs @ drop (Suc i) xs = remove1 x xs"
proof (induction xs arbitrary: i)
  case Nil
  then show ?case by simp
next
  case (Cons y ys)
  then show ?case by (cases i) (auto split: if_splits)
qed

lemma take_remove1_subset: "set (take n (remove1 x xs)) \<subseteq> set (take (Suc n) xs)"
proof (induction xs arbitrary: n)
  case Nil
  show ?case by simp
next
  case (Cons y ys)
  show ?case
  proof (cases n)
    case 0
    then show ?thesis by simp
  next
    case (Suc m)
    then show ?thesis using Cons [of m] by auto
  qed
qed

lemma take_remove1_before:
  "indexOf xs x = Some i \<Longrightarrow> n \<le> i \<Longrightarrow> take n (remove1 x xs) = take n xs"
proof (induction xs arbitrary: i n)
  case Nil
  then show ?case by simp
next
  case (Cons y ys)
  then show ?case by (cases i; cases n) (auto split: if_splits)
qed

section \<open>Outcomes\<close>

lemma and_then_Returns:
  "and_then m f = Returns y \<longleftrightarrow> (\<exists>x. m = Returns x \<and> f x = Returns y)"
  by (cases m) (simp_all add: and_then_def)

lemma and_then_simps [simp]:
  "and_then (Returns x) f = f x"
  "and_then (Throws e) f = Throws e"
  "and_then Unfinished f = Unfinished"
  by (simp_all add: and_then_def)

section \<open>Primitive operations\<close>

lemma removeChild_Returns:
  "removeChild p x st = Returns st' \<longleftrightarrow>
     (\<exists>i. indexOf (nodes st p) x = Some i \<and>
        st' = st\<lparr>parent := (parent st)(x := None),
                 nodes := (nodes st)(p := remove1 x (nodes st p)),
                 indexes := (indexes st)(p :=
                   (\<lambda>id. map_option (\<lambda>index. if index \<ge> int i then index - 1 else index)
                      (indexes st p id)))\<rparr>)"
  by (auto simp add: removeChild_def indexOf_remove1 split: option.splits)

lemma parent_update_idem: "parent st x = v \<Longrightarrow> st\<lparr>parent := (parent st)(x := v)\<rparr> = st"
  by (simp add: fun_upd_idem)

lemma remove_node_Returns:
  "remove_node x st = Returns st' \<longleftrightarrow>
     (case parent st x of
        None \<Rightarrow> st' = st
      | Some p \<Rightarrow> removeChild p x st = Returns st')"
  by (auto simp add: remove_node_def and_then_Returns removeChild_Returns parent_update_idem
        split: option.splits)

lemma in_remove1D: "y \<in> set (remove1 x xs) \<Longrightarrow> y \<in> set xs"
  using set_remove1_subset [of x xs] by blast

lemma evolves_refl: "evolves st st"
  by (auto simp add: evolves_def)

lemma removeChild_fields:
  assumes "removeChild p x st = Returns st'"
  shows "fresh st' = fresh st" "type st' = type st" "selector st' = selector st"
    "props st' = props st" "lastEach st' = lastEach st"
    "parent st' = (parent st)(x := None)"
    "nodes st' = (nodes st)(p := remove1 x (nodes st p))"
    "x \<in> set (nodes st p)"
  using assms by (auto simp add: removeChild_Returns indexOf_Some_iff)

lemma removeChild_children_ok:
  assumes "removeChild p x st = Returns st'" and "children_ok st" and "p < fresh st"
  shows "children_ok st'"
proof -
  note f = removeChild_fields [OF assms(1)]
  have px: "parent st x = Some p"
    using assms(2,3) f(8) by (auto simp add: children_ok_def)
  show ?thesis
    unfolding children_ok_def
  proof (intro allI impI conjI ballI)
    fix c assume c: "c < fresh st'"
    then show "distinct (nodes st' c)"
      using assms(2) by (auto simp add: f children_ok_def)
  next
    fix c y assume c: "c < fresh st'" and y: "y \<in> set (nodes st' c)"
    have y0: "y \<in> set (nodes st c)"
      using y by (auto simp add: f split: if_splits dest: in_remove1D)
    then show "y < fresh st'" using assms(2) c by (auto simp add: f children_ok_def)
    have "y \<noteq> x"
    proof
      assume "y = x"
      with y0 c assms(2) px have "c = p" by (auto simp add: children_ok_def f)
      with y \<open>y = x\<close> assms(2,3) show False by (auto simp add: f children_ok_def)
    qed
    then show "parent st' y = Some c"
      using y0 c assms(2) by (auto simp add: f children_ok_def)
  qed
qed

lemma removeChild_parents_ok:
  assumes "removeChild p x st = Returns st'" and "parents_ok st"
  shows "parents_ok st'"
proof -
  note f = removeChild_fields [OF assms(1)]
  show ?thesis
    using assms(2) by (auto simp add: parents_ok_def f split: if_splits)
qed

lemma removeChild_leaves_ok:
  assumes "removeChild p x st = Returns st'" and "leaves_ok st"
  shows "leaves_ok st'"
proof -
  note f = removeChild_fields [OF assms(1)]
  show ?thesis
    using assms(2) by (auto simp add: leaves_ok_def f)
qed

lemma removeChild_root_ok:
  assumes "removeChild p x st = Returns st'" and "root_ok st root"
  shows "root_ok st' root"
proof -
  note f = removeChild_fields [OF assms(1)]
  show ?thesis
    using assms(2) by (auto simp add: root_ok_def f)
qed

lemma removeChild_well_formed:
  assumes "removeChild p x st = Returns st'" and "well_formed st root" and "p < fresh st"
  shows "well_formed st' root"
  using assms
  by (auto simp add: well_formed_def intro: removeChild_children_ok removeChild_parents_ok
        removeChild_leaves_ok removeChild_root_ok)

lemma removeChild_evolves:
  assumes "removeChild p x st = Returns st'"
    and "type st x = Rule" and "type st p \<noteq> Root \<or> (nodes st x = [] \<and> x \<noteq> p)"
  shows "evolves st st'"
proof -
  note f = removeChild_fields [OF assms(1)]
  from assms(1) obtain i0 where i0: "indexOf (nodes st p) x = Some i0"
    and ix: "indexes st' = (indexes st)(p :=
                   (\<lambda>id. map_option (\<lambda>index. if index \<ge> int i0 then index - 1 else index)
                      (indexes st p id)))"
    by (auto simp add: removeChild_Returns)
  have len: "length (remove1 x (nodes st p)) = length (nodes st p) - 1"
    using f(8) by (simp add: length_remove1)
  have i0_lt: "i0 < length (nodes st p)" using i0 by (simp add: indexOf_Some_iff)
  have prefix: "\<exists>idx'. indexes st' i it = Some idx' \<and> idx' + 1 \<le> int (length (nodes st' i))
             \<and> set (take (nat (idx' + 1)) (nodes st' i)) \<subseteq> set (take (nat (idx + 1)) (nodes st i))"
    if "indexes st i it = Some idx" and b: "idx + 1 \<le> int (length (nodes st i))" for i it idx
  proof (cases "i = p")
    case False
    with that show ?thesis by (simp add: f ix)
  next
    case True
    show ?thesis
    proof (cases "idx \<ge> int i0")
      case ge: True
      have "set (take (nat idx) (remove1 x (nodes st p))) \<subseteq> set (take (Suc (nat idx)) (nodes st p))"
        by (rule take_remove1_subset)
      moreover have "Suc (nat idx) = nat (idx + 1)" using ge by simp
      ultimately show ?thesis
        using that True ge len i0_lt by (auto simp add: f ix)
    next
      case lt: False
      have "nat (idx + 1) \<le> i0" using lt by simp
      then have "take (nat (idx + 1)) (remove1 x (nodes st p)) = take (nat (idx + 1)) (nodes st p)"
        using take_remove1_before [OF i0] by simp
      then show ?thesis
        using that True lt len i0_lt by (auto simp add: f ix)
    qed
  qed
  have kept: "y \<in> set (nodes st' i) \<or> type st y = Rule \<and> (type st i \<noteq> Root \<or> nodes st' y = [])"
    if "y \<in> set (nodes st i)" for i y
  proof (cases "i = p \<and> y = x")
    case True
    with assms(2,3) show ?thesis by (auto simp add: f)
  next
    case False
    with that show ?thesis by (auto simp add: f)
  qed
  have shrink: "set (nodes st' i) \<subseteq> set (nodes st i)" for i
    by (auto simp add: f dest: in_remove1D)
  show ?thesis
    unfolding evolves_def
    using prefix kept shrink by (simp add: f(1-5))
qed

lemma evolves_trans:
  assumes ab: "evolves a b" and bc: "evolves b c"
  shows "evolves a c"
proof -
  have fr: "fresh a \<le> fresh b" "fresh b \<le> fresh c"
    using ab bc by (auto simp add: evolves_def)
  have step: "type c i = type a i \<and> selector c i = selector a i \<and> props c i = props a i
    \<and> lastEach a i \<le> lastEach c i
    \<and> (type a i \<noteq> Root \<longrightarrow> set (nodes c i) \<subseteq> set (nodes a i))
    \<and> (\<forall>y\<in>set (nodes a i). y < fresh a \<longrightarrow>
          y \<in> set (nodes c i) \<or> type a y = Rule \<and> (type a i \<noteq> Root \<or> nodes c y = []))
    \<and> (\<forall>it idx. it \<le> lastEach a i \<and> indexes a i it = Some idx
            \<and> idx + 1 \<le> int (length (nodes a i)) \<longrightarrow>
          (\<exists>idx'. indexes c i it = Some idx' \<and> idx' + 1 \<le> int (length (nodes c i))
             \<and> set (take (nat (idx' + 1)) (nodes c i)) \<subseteq> set (take (nat (idx + 1)) (nodes a i))))"
    if i: "i < fresh a" for i
  proof -
    have ib: "i < fresh b" using i fr by simp
    note A = ab [unfolded evolves_def, THEN conjunct2, rule_format, OF i]
    note B = bc [unfolded evolves_def, THEN conjunct2, rule_format, OF ib]
    have basic: "type c i = type a i" "selector c i = selector a i" "props c i = props a i"
      "lastEach a i \<le> lastEach c i"
      using A B by auto
    have shrink: "type a i \<noteq> Root \<longrightarrow> set (nodes c i) \<subseteq> set (nodes a i)"
      using A B by auto
    have kept: "y \<in> set (nodes c i) \<or> type a y = Rule \<and> (type a i \<noteq> Root \<or> nodes c y = [])"
      if y: "y \<in> set (nodes a i)" and ya: "y < fresh a" for y
    proof -
      have yb: "y < fresh b" using ya fr by simp
      note Ay = ab [unfolded evolves_def, THEN conjunct2, rule_format, OF ya]
      note By = bc [unfolded evolves_def, THEN conjunct2, rule_format, OF yb]
      from A y ya consider "y \<in> set (nodes b i)"
        | "type a y = Rule" "type a i \<noteq> Root \<or> nodes b y = []"
        by blast
      then show ?thesis
      proof cases
        case 1
        with B yb have "y \<in> set (nodes c i) \<or> type b y = Rule \<and> (type b i \<noteq> Root \<or> nodes c y = [])"
          by blast
        then show ?thesis using A Ay by auto
      next
        case 2
        have "nodes b y = [] \<Longrightarrow> nodes c y = []"
          using By Ay 2(1) by auto
        with 2 show ?thesis by auto
      qed
    qed
    have prefix: "\<exists>idx'. indexes c i it = Some idx' \<and> idx' + 1 \<le> int (length (nodes c i))
             \<and> set (take (nat (idx' + 1)) (nodes c i)) \<subseteq> set (take (nat (idx + 1)) (nodes a i))"
      if "it \<le> lastEach a i" "indexes a i it = Some idx" "idx + 1 \<le> int (length (nodes a i))"
      for it idx
    proof -
      from A that obtain idx1 where 1: "indexes b i it = Some idx1"
        "idx1 + 1 \<le> int (length (nodes b i))"
        "set (take (nat (idx1 + 1)) (nodes b i)) \<subseteq> set (take (nat (idx + 1)) (nodes a i))"
        by blast
      have "it \<le> lastEach b i" using that(1) A by auto
      with B 1 obtain idx2 where 2: "indexes c i it = Some idx2"
        "idx2 + 1 \<le> int (length (nodes c i))"
        "set (take (nat (idx2 + 1)) (nodes c i)) \<subseteq> set (take (nat (idx1 + 1)) (nodes b i))"
        by blast
      from 1 2 show ?thesis by blast
    qed
    from basic shrink kept prefix show ?thesis by blast
  qed
  show ?thesis
    unfolding evolves_def using fr step by auto
qed

lemma remove_node_fields:
  assumes "remove_node x st = Returns st'"
  shows "fresh st' = fresh st" "type st' = type st" "selector st' = selector st"
    "props st' = props st" "lastEach st' = lastEach st"
    "parent st' = (parent st)(x := None)"
    "nodes st' = (case parent st x of None \<Rightarrow> nodes st
                  | Some p \<Rightarrow> (nodes st)(p := remove1 x (nodes st p)))"
  using assms
  by (auto simp add: remove_node_Returns removeChild_fields fun_upd_idem split: option.splits)

lemma remove_node_well_formed:
  assumes "remove_node x st = Returns st'" and "well_formed st root" and "x < fresh st"
  shows "well_formed st' root"
proof (cases "parent st x")
  case None
  with assms show ?thesis by (simp add: remove_node_Returns)
next
  case (Some p)
  with assms(2,3) have "p < fresh st" by (auto simp add: well_formed_def parents_ok_def)
  with assms Some show ?thesis
    by (auto simp add: remove_node_Returns intro: removeChild_well_formed)
qed

lemma remove_node_evolves:
  assumes "remove_node x st = Returns st'" and "type st x = Rule"
    and "\<forall>p. parent st x = Some p \<longrightarrow> type st p \<noteq> Root \<or> (nodes st x = [] \<and> x \<noteq> p)"
  shows "evolves st st'"
proof (cases "parent st x")
  case None
  with assms show ?thesis by (simp add: remove_node_Returns evolves_refl)
next
  case (Some p)
  with assms show ?thesis
    by (auto simp add: remove_node_Returns intro: removeChild_evolves)
qed

lemma remove_node_detached:
  assumes "remove_node x st = Returns st'" and "children_ok st" and "c < fresh st"
  shows "x \<notin> set (nodes st' c)"
proof
  assume in': "x \<in> set (nodes st' c)"
  note f = remove_node_fields [OF assms(1)]
  show False
  proof (cases "parent st x")
    case None
    with in' have "x \<in> set (nodes st c)" by (simp add: f)
    with assms(2,3) None show False by (auto simp add: children_ok_def)
  next
    case (Some p)
    have "x \<in> set (nodes st c)" using in' Some by (auto simp add: f split: if_splits dest: in_remove1D)
    with assms(2,3) Some have "c = p" by (auto simp add: children_ok_def)
    with in' Some assms(2,3) show False by (auto simp add: f children_ok_def)
  qed
qed

section \<open>Appending a parentless node\<close>

lemma append_node_parentless:
  assumes "parent st c = None"
  shows "append_node root c st =
    Returns (st\<lparr>parent := (parent st)(c := Some root),
               nodes := (nodes st)(root := nodes st root @ [c])\<rparr>)"
  using assms by (simp add: append_node_def)

lemma append_node_well_formed:
  assumes "parent st c = None" and "well_formed st root" and "c < fresh st" and "c \<noteq> root"
    and st': "st' = st\<lparr>parent := (parent st)(c := Some root),
               nodes := (nodes st)(root := nodes st root @ [c])\<rparr>"
  shows "well_formed st' root"
proof -
  have notin: "c \<notin> set (nodes st q)" if "q < fresh st" for q
    using assms(1,2) that by (auto simp add: well_formed_def children_ok_def)
  have r: "root < fresh st" "type st root = Root" "parent st root = None"
    using assms(2) by (auto simp add: well_formed_def root_ok_def)
  have "children_ok st'"
    using assms(2,3) notin r(1) by (auto simp add: st' well_formed_def children_ok_def)
  moreover have "parents_ok st'"
    using assms(2,3) r(1) by (auto simp add: st' well_formed_def parents_ok_def)
  moreover have "leaves_ok st'"
    using assms(2) r by (auto simp add: st' well_formed_def leaves_ok_def isContainer_def)
  moreover have "root_ok st' root"
    using assms(2,4) by (auto simp add: st' well_formed_def root_ok_def)
  ultimately show ?thesis by (simp add: well_formed_def)
qed

lemma append_node_evolves:
  assumes "type st root = Root"
    and st': "st' = st\<lparr>parent := (parent st)(c := Some root),
               nodes := (nodes st)(root := nodes st root @ [c])\<rparr>"
  shows "evolves st st'"
  unfolding evolves_def using assms(1) by (auto simp add: st')

lemma unchanged_below_refl: "unchanged_below k st st"
  by (simp add: unchanged_below_def)

lemma unchanged_below_trans:
  "unchanged_below k a b \<Longrightarrow> unchanged_below k' b c \<Longrightarrow> k \<le> k' \<Longrightarrow> unchanged_below k a c"
  by (auto simp add: unchanged_below_def)

lemma unchanged_below_mono:
  "unchanged_below k a b \<Longrightarrow> k' \<le> k \<Longrightarrow> unchanged_below k' a b"
  by (auto simp add: unchanged_below_def)

text \<open>The frame of a clone: the new object is the first fresh address, and nothing
  below it changes.\<close>

lemma clone_frame:
  "cloneNode n obj par st = Returns (c, st') \<Longrightarrow>
     c = fresh st \<and> fresh st < fresh st' \<and> unchanged_below (fresh st) st st'"
  "cloneNodes n objs p st = Returns (cs, st') \<Longrightarrow>
     fresh st \<le> fresh st' \<and> unchanged_below (fresh st) st st'
     \<and> (\<forall>x\<in>set cs. fresh st \<le> x \<and> x < fresh st')"
proof (induction n obj par st and n objs p st arbitrary: c st' and cs st'
    rule: cloneNode_cloneNodes.induct)
  case (1 obj par st)
  then show ?case by simp
next
  case (2 n obj par st)
  define st1 where "st1 = st\<lparr>fresh := Suc (fresh st), type := (type st)(fresh st := type st obj),
                selector := (selector st)(fresh st := selector st obj),
                parent := (parent st)(fresh st := par),
                nodes := (nodes st)(fresh st := []),
                props := (props st)(fresh st := props st obj),
                indexes := (indexes st)(fresh st := indexes st obj),
                lastEach := (lastEach st)(fresh st := lastEach st obj)\<rparr>"
  from "2.prems" obtain cs st2 where
    inner: "cloneNodes n (nodes st obj) (fresh st) st1 = Returns (cs, st2)"
    and res: "c = fresh st" "st' = st2\<lparr>nodes := (nodes st2)(fresh st := cs)\<rparr>"
    by (auto simp add: Let_def and_then_Returns st1_def)
  note IH = "2.IH" [OF refl st1_def inner]
  have "unchanged_below (fresh st) st st1"
    by (simp add: unchanged_below_def st1_def)
  moreover have "unchanged_below (fresh st) st1 st2"
    using IH by (auto simp add: st1_def intro: unchanged_below_mono)
  moreover have "unchanged_below (fresh st) st2 st'"
    by (simp add: unchanged_below_def res)
  ultimately have "unchanged_below (fresh st) st st'"
    by (blast intro: unchanged_below_trans)
  moreover have "fresh st < fresh st'" using IH by (simp add: res st1_def)
  ultimately show ?case using res by simp
next
  case (3 n par st)
  then show ?case by (simp add: unchanged_below_refl)
next
  case (4 n child children par st)
  from "4.prems" obtain c st1 cs' where
    first: "cloneNode n child (Some par) st = Returns (c, st1)"
    and rest: "cloneNodes n children par st1 = Returns (cs', st')"
    and res: "cs = c # cs'"
    by (auto simp add: and_then_Returns)
  note A = "4.IH"(1) [OF first]
  note B = "4.IH"(2) [OF rest]
  have "unchanged_below (fresh st) st st'"
    using A B by (auto intro: unchanged_below_trans)
  then show ?case using A B res by auto
qed

lemma wf_child:
  "well_formed st root \<Longrightarrow> c < fresh st \<Longrightarrow> x \<in> set (nodes st c) \<Longrightarrow>
     x < fresh st \<and> parent st x = Some c"
  by (simp add: well_formed_def children_ok_def)

lemma wf_distinct: "well_formed st root \<Longrightarrow> c < fresh st \<Longrightarrow> distinct (nodes st c)"
  by (simp add: well_formed_def children_ok_def)

lemma wf_parent:
  "well_formed st root \<Longrightarrow> x < fresh st \<Longrightarrow> parent st x = Some p \<Longrightarrow>
     p < fresh st \<and> x \<in> set (nodes st p)"
  by (simp add: well_formed_def parents_ok_def)

lemma wf_leaf:
  "well_formed st root \<Longrightarrow> i < fresh st \<Longrightarrow> \<not> isContainer (type st i) \<Longrightarrow> nodes st i = []"
  by (simp add: well_formed_def leaves_ok_def)

lemma wf_root:
  assumes "well_formed st root"
  shows "root < fresh st" "type st root = Root" "parent st root = None"
  using assms by (simp_all add: well_formed_def root_ok_def)

lemma wf_root_unique:
  "well_formed st root \<Longrightarrow> i < fresh st \<Longrightarrow> type st i = Root \<Longrightarrow> i = root"
  by (simp add: well_formed_def root_ok_def)

lemma wf_child_not_root:
  assumes "well_formed st root" and "c < fresh st" and "x \<in> set (nodes st c)"
  shows "x \<noteq> root"
proof
  assume "x = root"
  then have "parent st root = Some c" using wf_child [OF assms] by simp
  then show False using wf_root(3) [OF assms(1)] by simp
qed

lemma region_okD:
  assumes "region_ok lo tops par st" and "lo \<le> j" and "j < fresh st"
  shows "distinct (nodes st j)
    \<and> (\<forall>x\<in>set (nodes st j). lo \<le> x \<and> x < fresh st \<and> parent st x = Some j)
    \<and> (if j \<in> set tops then parent st j = par
        else (\<exists>p. lo \<le> p \<and> p < fresh st \<and> parent st j = Some p \<and> j \<in> set (nodes st p)))
    \<and> type st j \<noteq> Root \<and> (\<not> isContainer (type st j) \<longrightarrow> nodes st j = [])"
  by (rule assms(1) [unfolded region_ok_def, rule_format, of j]) (simp add: assms(2,3))

lemma region_ok_top:
  assumes "region_ok lo tops par st" and "lo \<le> j" and "j < fresh st" and "j \<in> set tops"
  shows "parent st j = par"
  using region_okD [OF assms(1-3)] assms(4) by simp

lemma cloneNodes_Nil_result: "cloneNodes n [] p st = Returns (cs, st') \<Longrightarrow> cs = [] \<and> st' = st"
  by simp

lemma clone_region:
  assumes wf0: "well_formed st0 root"
  shows
  "cloneNode n obj par st = Returns (c, st') \<Longrightarrow> fresh st0 \<le> fresh st \<Longrightarrow>
     unchanged_below (fresh st0) st0 st \<Longrightarrow> obj < fresh st0 \<Longrightarrow> obj \<noteq> root \<Longrightarrow>
     region_ok (fresh st) [c] par st'"
  "cloneNodes n objs p st = Returns (cs, st') \<Longrightarrow> fresh st0 \<le> fresh st \<Longrightarrow>
     unchanged_below (fresh st0) st0 st \<Longrightarrow> (\<forall>src\<in>set objs. src < fresh st0 \<and> src \<noteq> root) \<Longrightarrow>
     distinct cs \<and> region_ok (fresh st) cs (Some p) st'"
proof (induction n obj par st and n objs p st arbitrary: c st' and cs st'
    rule: cloneNode_cloneNodes.induct)
  case (1 obj par st)
  then show ?case by simp
next
  case (2 n obj par st)
  define st1 where "st1 = st\<lparr>fresh := Suc (fresh st), type := (type st)(fresh st := type st obj),
                selector := (selector st)(fresh st := selector st obj),
                parent := (parent st)(fresh st := par),
                nodes := (nodes st)(fresh st := []),
                props := (props st)(fresh st := props st obj),
                indexes := (indexes st)(fresh st := indexes st obj),
                lastEach := (lastEach st)(fresh st := lastEach st obj)\<rparr>"
  from "2.prems"(1) obtain cs st2 where
    inner: "cloneNodes n (nodes st obj) (fresh st) st1 = Returns (cs, st2)"
    and res: "c = fresh st" "st' = st2\<lparr>nodes := (nodes st2)(fresh st := cs)\<rparr>"
    by (auto simp add: Let_def and_then_Returns st1_def)
  have obj0: "type st obj = type st0 obj" "nodes st obj = nodes st0 obj"
    using "2.prems"(3,4) by (auto simp add: unchanged_below_def)
  have kids: "\<forall>src\<in>set (nodes st obj). src < fresh st0 \<and> src \<noteq> root"
    using wf_child [OF wf0 "2.prems"(4)] wf_child_not_root [OF wf0 "2.prems"(4)]
    unfolding obj0 by blast
  have ub1: "unchanged_below (fresh st0) st0 st1"
    using "2.prems"(2,3) by (auto simp add: unchanged_below_def st1_def)
  have f1: "fresh st1 = Suc (fresh st)" by (simp add: st1_def)
  have IH: "distinct cs" "region_ok (Suc (fresh st)) cs (Some (fresh st)) st2"
    using "2.IH" [OF refl st1_def inner _ ub1 kids] "2.prems"(2) by (simp_all add: f1)
  note fr = clone_frame(2) [OF inner, unfolded f1]
  have c2: "parent st2 (fresh st) = par" "type st2 (fresh st) = type st0 obj"
    using fr by (auto simp add: unchanged_below_def st1_def obj0)
  have notroot: "type st0 obj \<noteq> Root"
    using wf_root_unique [OF wf0 "2.prems"(4)] "2.prems"(5) by blast
  have leaf: "cs = []" if "\<not> isContainer (type st0 obj)"
  proof -
    have "nodes st obj = []"
      using wf_leaf [OF wf0 "2.prems"(4) that] unfolding obj0 .
    with inner show ?thesis by simp
  qed
  show ?case
    unfolding region_ok_def
  proof (intro allI impI)
    fix j assume j: "fresh st \<le> j \<and> j < fresh st'"
    show "distinct (nodes st' j)
      \<and> (\<forall>x\<in>set (nodes st' j). fresh st \<le> x \<and> x < fresh st' \<and> parent st' x = Some j)
      \<and> (if j \<in> set [c] then parent st' j = par
          else (\<exists>p. fresh st \<le> p \<and> p < fresh st' \<and> parent st' j = Some p \<and> j \<in> set (nodes st' p)))
      \<and> type st' j \<noteq> Root \<and> (\<not> isContainer (type st' j) \<longrightarrow> nodes st' j = [])"
    proof (cases "j = fresh st")
      case True
      have "\<forall>x\<in>set cs. fresh st \<le> x \<and> x < fresh st' \<and> parent st' x = Some j"
      proof
        fix x assume x: "x \<in> set cs"
        then have b: "Suc (fresh st) \<le> x \<and> x < fresh st2" using fr by auto
        with x have "parent st2 x = Some (fresh st)"
          using region_ok_top [OF IH(2), of x] by simp
        with b True show "fresh st \<le> x \<and> x < fresh st' \<and> parent st' x = Some j"
          by (simp add: res)
      qed
      then show ?thesis
        using True IH(1) c2 notroot leaf by (simp add: res)
    next
      case False
      then have jin: "Suc (fresh st) \<le> j \<and> j < fresh st2" using j by (simp add: res)
      note R = region_okD [OF IH(2) conjunct1 [OF jin] conjunct2 [OF jin]]
      have nj: "nodes st' j = nodes st2 j" "parent st' = parent st2" "type st' = type st2"
        "fresh st' = fresh st2"
        using False by (simp_all add: res)
      have up: "\<exists>p. fresh st \<le> p \<and> p < fresh st2 \<and> parent st2 j = Some p \<and> j \<in> set (nodes st' p)"
      proof (cases "j \<in> set cs")
        case True
        with R have "parent st2 j = Some (fresh st)" by simp
        with True fr show ?thesis
          by (intro exI [of _ "fresh st"]) (auto simp add: res)
      next
        case notin: False
        with R obtain p where "Suc (fresh st) \<le> p" "p < fresh st2" "parent st2 j = Some p"
          "j \<in> set (nodes st2 p)" by auto
        then show ?thesis
          by (intro exI [of _ p]) (auto simp add: res)
      qed
      show ?thesis
        unfolding nj
      proof (intro conjI)
        show "distinct (nodes st2 j)" using R by blast
        show "\<forall>x\<in>set (nodes st2 j). fresh st \<le> x \<and> x < fresh st2 \<and> parent st2 x = Some j"
          using R by (meson Suc_leD)
        show "if j \<in> set [c] then parent st2 j = par
          else (\<exists>p. fresh st \<le> p \<and> p < fresh st2 \<and> parent st2 j = Some p \<and> j \<in> set (nodes st' p))"
          using False up by (simp add: res(1))
        show "type st2 j \<noteq> Root" using R by blast
        show "\<not> isContainer (type st2 j) \<longrightarrow> nodes st2 j = []" using R by blast
      qed
    qed
  qed
next
  case (3 n par st)
  then show ?case by (auto simp add: region_ok_def)
next
  case (4 n child children par st)
  from "4.prems"(1) obtain c st1 cs' where
    first: "cloneNode n child (Some par) st = Returns (c, st1)"
    and rest: "cloneNodes n children par st1 = Returns (cs', st')"
    and res: "cs = c # cs'"
    by (auto simp add: and_then_Returns)
  note frA = clone_frame(1) [OF first]
  note frB = clone_frame(2) [OF rest]
  have A: "region_ok (fresh st) [c] (Some par) st1"
    using "4.IH"(1) [OF first] "4.prems"(2,3,4) by simp
  have ub1: "unchanged_below (fresh st0) st0 st1"
    using "4.prems"(2,3) frA by (auto intro: unchanged_below_trans)
  have B: "distinct cs'" "region_ok (fresh st1) cs' (Some par) st'"
    using "4.IH"(2) [OF rest _ ub1] "4.prems"(2,4) frA by simp_all
  have c_notin: "c \<notin> set cs'" using frA frB by auto
  have "region_ok (fresh st) (c # cs') (Some par) st'"
    unfolding region_ok_def
  proof (intro allI impI)
    fix j assume j: "fresh st \<le> j \<and> j < fresh st'"
    show "distinct (nodes st' j)
      \<and> (\<forall>x\<in>set (nodes st' j). fresh st \<le> x \<and> x < fresh st' \<and> parent st' x = Some j)
      \<and> (if j \<in> set (c # cs') then parent st' j = Some par
          else (\<exists>p. fresh st \<le> p \<and> p < fresh st' \<and> parent st' j = Some p \<and> j \<in> set (nodes st' p)))
      \<and> type st' j \<noteq> Root \<and> (\<not> isContainer (type st' j) \<longrightarrow> nodes st' j = [])"
    proof (cases "j < fresh st1")
      case True
      then have jin: "fresh st \<le> j \<and> j < fresh st1" using j by simp
      note R = region_okD [OF A conjunct1 [OF jin] conjunct2 [OF jin]]
      have same: "nodes st' j = nodes st1 j" "parent st' j = parent st1 j" "type st' j = type st1 j"
        using frB True by (auto simp add: unchanged_below_def)
      have kids: "\<forall>x\<in>set (nodes st1 j). fresh st \<le> x \<and> x < fresh st' \<and> parent st' x = Some j"
      proof
        fix x assume "x \<in> set (nodes st1 j)"
        with R have "fresh st \<le> x \<and> x < fresh st1 \<and> parent st1 x = Some j" by blast
        then show "fresh st \<le> x \<and> x < fresh st' \<and> parent st' x = Some j"
          using frB by (auto simp add: unchanged_below_def)
      qed
      have notin: "j \<notin> set cs'" using frB True by auto
      have up: "\<exists>p. fresh st \<le> p \<and> p < fresh st' \<and> parent st' j = Some p \<and> j \<in> set (nodes st' p)"
        if "j \<noteq> c"
      proof -
        from R that obtain p where p: "fresh st \<le> p" "p < fresh st1" "parent st1 j = Some p"
          "j \<in> set (nodes st1 p)" by auto
        then have "nodes st' p = nodes st1 p" using frB by (auto simp add: unchanged_below_def)
        with p frB show ?thesis by (intro exI [of _ p]) (auto simp add: same)
      qed
      show ?thesis
        unfolding same
      proof (intro conjI)
        show "distinct (nodes st1 j)" using R by blast
        show "\<forall>x\<in>set (nodes st1 j). fresh st \<le> x \<and> x < fresh st' \<and> parent st' x = Some j"
          by (rule kids)
        show "if j \<in> set (c # cs') then parent st1 j = Some par
          else (\<exists>p. fresh st \<le> p \<and> p < fresh st' \<and> parent st1 j = Some p \<and> j \<in> set (nodes st' p))"
        proof (cases "j = c")
          case True
          with R show ?thesis by simp
        next
          case False
          with up [OF False] notin show ?thesis by (simp add: same)
        qed
        show "type st1 j \<noteq> Root" using R by blast
        show "\<not> isContainer (type st1 j) \<longrightarrow> nodes st1 j = []" using R by blast
      qed
    next
      case False
      then have jin: "fresh st1 \<le> j \<and> j < fresh st'" using j by simp
      note R = region_okD [OF B(2) conjunct1 [OF jin] conjunct2 [OF jin]]
      have jc: "j \<noteq> c" using frA False by auto
      have le: "fresh st \<le> fresh st1" using frA by simp
      show ?thesis
      proof (intro conjI)
        show "distinct (nodes st' j)" using R by blast
        show "\<forall>x\<in>set (nodes st' j). fresh st \<le> x \<and> x < fresh st' \<and> parent st' x = Some j"
          using R le by (meson le_trans)
        show "if j \<in> set (c # cs') then parent st' j = Some par
          else (\<exists>p. fresh st \<le> p \<and> p < fresh st' \<and> parent st' j = Some p \<and> j \<in> set (nodes st' p))"
        proof (cases "j \<in> set cs'")
          case True
          with R jc show ?thesis by simp
        next
          case notin: False
          with R obtain p where "fresh st1 \<le> p" "p < fresh st'" "parent st' j = Some p"
            "j \<in> set (nodes st' p)" by auto
          with le notin jc show ?thesis by (auto intro: exI [of _ p])
        qed
        show "type st' j \<noteq> Root" using R by blast
        show "\<not> isContainer (type st' j) \<longrightarrow> nodes st' j = []" using R by blast
      qed
    qed
  qed
  with B(1) c_notin res show ?case by simp
qed

lemma unchangedD:
  assumes "unchanged_below k st st'" and "i < k"
  shows "type st' i = type st i" "selector st' i = selector st i" "props st' i = props st i"
    "parent st' i = parent st i" "nodes st' i = nodes st i"
    "indexes st' i = indexes st i" "lastEach st' i = lastEach st i"
  using assms by (simp_all add: unchanged_below_def)

lemma unchanged_evolves:
  assumes "fresh st \<le> fresh st'" and "unchanged_below (fresh st) st st'"
  shows "evolves st st'"
proof -
  have "type st' i = type st i \<and> selector st' i = selector st i \<and> props st' i = props st i
    \<and> lastEach st i \<le> lastEach st' i
    \<and> (type st i \<noteq> Root \<longrightarrow> set (nodes st' i) \<subseteq> set (nodes st i))
    \<and> (\<forall>y\<in>set (nodes st i). y < fresh st \<longrightarrow>
          y \<in> set (nodes st' i) \<or> type st y = Rule \<and> (type st i \<noteq> Root \<or> nodes st' y = []))
    \<and> (\<forall>it idx. it \<le> lastEach st i \<and> indexes st i it = Some idx
            \<and> idx + 1 \<le> int (length (nodes st i)) \<longrightarrow>
          (\<exists>idx'. indexes st' i it = Some idx' \<and> idx' + 1 \<le> int (length (nodes st' i))
             \<and> set (take (nat (idx' + 1)) (nodes st' i)) \<subseteq> set (take (nat (idx + 1)) (nodes st i))))"
    if i: "i < fresh st" for i
    unfolding unchangedD [OF assms(2) i] by simp
  with assms(1) show ?thesis unfolding evolves_def by blast
qed

lemma extend_well_formed:
  assumes wf: "well_formed st root" and le: "fresh st \<le> fresh st'"
    and ub: "unchanged_below (fresh st) st st'"
    and reg: "region_ok (fresh st) tops None st'"
  shows "well_formed st' root"
proof -
  have "children_ok st'"
    unfolding children_ok_def
  proof (intro allI impI)
    fix c assume c: "c < fresh st'"
    show "distinct (nodes st' c) \<and> (\<forall>x\<in>set (nodes st' c). x < fresh st' \<and> parent st' x = Some c)"
    proof (cases "c < fresh st")
      case True
      note u = unchangedD [OF ub True]
      have "\<forall>x\<in>set (nodes st c). x < fresh st' \<and> parent st' x = Some c"
      proof
        fix x assume "x \<in> set (nodes st c)"
        then have x: "x < fresh st \<and> parent st x = Some c" by (rule wf_child [OF wf True])
        then show "x < fresh st' \<and> parent st' x = Some c"
          using le unchangedD(4) [OF ub, of x] by simp
      qed
      then show ?thesis using wf_distinct [OF wf True] by (simp add: u)
    next
      case False
      then have "fresh st \<le> c" by simp
      from region_okD [OF reg this c] show ?thesis by blast
    qed
  qed
  moreover have "parents_ok st'"
    unfolding parents_ok_def
  proof (intro allI impI)
    fix x p assume x: "x < fresh st'" and p: "parent st' x = Some p"
    show "p < fresh st' \<and> x \<in> set (nodes st' p)"
    proof (cases "x < fresh st")
      case True
      then have "parent st x = Some p" using p unchangedD(4) [OF ub True] by simp
      from wf_parent [OF wf True this] show ?thesis
        using le unchangedD(5) [OF ub, of p] by simp
    next
      case False
      then have "fresh st \<le> x" by simp
      from region_okD [OF reg this x] p show ?thesis by (auto split: if_splits)
    qed
  qed
  moreover have "leaves_ok st'"
    unfolding leaves_ok_def
  proof (intro allI impI)
    fix i assume i: "i < fresh st'" and leaf: "\<not> isContainer (type st' i)"
    show "nodes st' i = []"
    proof (cases "i < fresh st")
      case True
      with leaf wf_leaf [OF wf True] show ?thesis by (simp add: unchangedD [OF ub True])
    next
      case False
      then have "fresh st \<le> i" by simp
      from region_okD [OF reg this i] leaf show ?thesis by blast
    qed
  qed
  moreover have "root_ok st' root"
    unfolding root_ok_def
  proof (intro conjI allI impI)
    show "root < fresh st'" using wf_root(1) [OF wf] le by simp
    show "type st' root = Root" "parent st' root = None"
      using wf_root [OF wf] by (simp_all add: unchangedD [OF ub])
  next
    fix i assume i: "i < fresh st'" and t: "type st' i = Root"
    show "i = root"
    proof (cases "i < fresh st")
      case True
      with t wf_root_unique [OF wf True] show ?thesis by (simp add: unchangedD [OF ub True])
    next
      case False
      then have "fresh st \<le> i" by simp
      from region_okD [OF reg this i] t show ?thesis by blast
    qed
  qed
  ultimately show ?thesis by (simp add: well_formed_def)
qed

lemma well_formed_selector_update [simp]:
  "well_formed (st\<lparr>selector := s\<rparr>) root = well_formed st root"
  by (simp add: well_formed_def children_ok_def parents_ok_def leaves_ok_def root_ok_def)

lemma well_formed_indexes_update [simp]:
  "well_formed (st\<lparr>indexes := s\<rparr>) root = well_formed st root"
  by (simp add: well_formed_def children_ok_def parents_ok_def leaves_ok_def root_ok_def)

lemma well_formed_lastEach_update [simp]:
  "well_formed (st\<lparr>lastEach := s\<rparr>) root = well_formed st root"
  by (simp add: well_formed_def children_ok_def parents_ok_def leaves_ok_def root_ok_def)

lemma cloneNode_top:
  assumes "cloneNode n obj par st = Returns (c, st')"
  shows "type st' c = type st obj" "selector st' c = selector st obj"
    "props st' c = props st obj" "parent st' c = par"
proof -
  from assms obtain m where n: "n = Suc m" by (cases n) auto
  define st1 where "st1 = st\<lparr>fresh := Suc (fresh st), type := (type st)(fresh st := type st obj),
                selector := (selector st)(fresh st := selector st obj),
                parent := (parent st)(fresh st := par),
                nodes := (nodes st)(fresh st := []),
                props := (props st)(fresh st := props st obj),
                indexes := (indexes st)(fresh st := indexes st obj),
                lastEach := (lastEach st)(fresh st := lastEach st obj)\<rparr>"
  from assms n obtain cs st2 where
    inner: "cloneNodes m (nodes st obj) (fresh st) st1 = Returns (cs, st2)"
    and res: "c = fresh st" "st' = st2\<lparr>nodes := (nodes st2)(fresh st := cs)\<rparr>"
    by (auto simp add: Let_def and_then_Returns st1_def)
  have "unchanged_below (Suc (fresh st)) st1 st2"
    using clone_frame(2) [OF inner] by (simp add: st1_def)
  from unchangedD [OF this, of "fresh st"]
  show "type st' c = type st obj" "selector st' c = selector st obj"
    "props st' c = props st obj" "parent st' c = par"
    by (simp_all add: res st1_def)
qed

text \<open>The clone of a node of a well-formed store.\<close>

lemma clone_well_formed:
  assumes cl: "clone n rule sel st = Returns (c, st')"
    and wf: "well_formed st root" and r: "rule < fresh st" "rule \<noteq> root"
  shows "well_formed st' root" and "c = fresh st" and "fresh st < fresh st'"
    and "unchanged_below (fresh st) st st'" and "parent st' c = None"
    and "type st' c = type st rule" and "selector st' c = Some sel"
proof -
  from cl obtain st1 where cn: "cloneNode n rule None st = Returns (c, st1)"
    and st': "st' = st1\<lparr>selector := (selector st1)(c := Some sel)\<rparr>"
    by (auto simp add: clone_def and_then_Returns)
  note fr = clone_frame(1) [OF cn]
  have reg: "region_ok (fresh st) [c] None st1"
    by (rule clone_region(1) [OF wf cn _ unchanged_below_refl r]) simp
  have "well_formed st1 root"
    using extend_well_formed [OF wf _ _ reg] fr by simp
  then show "well_formed st' root" by (simp add: st')
  show "c = fresh st" using fr by simp
  show "fresh st < fresh st'" using fr by (simp add: st')
  show "unchanged_below (fresh st) st st'"
    using fr by (auto simp add: st' unchanged_below_def)
  have "fresh st \<le> c" "c < fresh st1" using fr by simp_all
  from region_ok_top [OF reg this] show "parent st' c = None" by (simp add: st')
  show "selector st' c = Some sel" by (simp add: st')
  show "type st' c = type st rule"
    using cloneNode_top(1) [OF cn] by (simp add: st')
qed

lemma evolvesD:
  assumes "evolves st st'" and "i < fresh st"
  shows "type st' i = type st i" "selector st' i = selector st i" "props st' i = props st i"
    "lastEach st i \<le> lastEach st' i"
    "type st i \<noteq> Root \<Longrightarrow> set (nodes st' i) \<subseteq> set (nodes st i)"
  using assms by (simp_all add: evolves_def)

lemma evolves_fresh: "evolves st st' \<Longrightarrow> fresh st \<le> fresh st'"
  by (simp add: evolves_def)


lemma evolves_kept:
  assumes "evolves st st'" and "i < fresh st" and "y \<in> set (nodes st i)" and "y < fresh st"
  shows "y \<in> set (nodes st' i) \<or> type st y = Rule \<and> (type st i \<noteq> Root \<or> nodes st' y = [])"
  using assms(1) [unfolded evolves_def, THEN conjunct2, rule_format, OF assms(2)] assms(3,4)
  by blast

lemma has_decl_evolves:
  assumes ev: "evolves st st'" and wf: "well_formed st root"
    and x: "x < fresh st" "type st x \<noteq> Root" and hd: "has_decl st' x"
  shows "has_decl st x"
proof -
  from hd obtain d where d: "d \<in> set (nodes st' x)" "type st' d = Decl"
    by (auto simp add: has_decl_def list_ex_iff)
  with evolvesD(5) [OF ev x] have d0: "d \<in> set (nodes st x)" by blast
  then have "d < fresh st" using wf_child [OF wf x(1)] by blast
  with d(2) evolvesD(1) [OF ev this] d0 show ?thesis
    by (auto simp add: has_decl_def list_ex_iff)
qed

lemma nested_decl_rule_evolves:
  assumes ev: "evolves st st'" and wf: "well_formed st root"
    and x: "x < fresh st" and c: "c < fresh st" and n: "nested_decl_rule st' c x"
  shows "nested_decl_rule st c x"
proof -
  from n have "type st x = Rule" "type st c \<noteq> Root" "has_decl st' x"
    using evolvesD(1) [OF ev x] evolvesD(1) [OF ev c] by (simp_all add: nested_decl_rule_def)
  moreover from this have "has_decl st x"
    using has_decl_evolves [OF ev wf x] by simp
  ultimately show ?thesis by (simp add: nested_decl_rule_def)
qed

text \<open>The loop that removes empty parent rules only removes.\<close>

lemma removeChild_shrinks:
  assumes "removeChild p x st = Returns st'"
  shows "set (nodes st' i) \<subseteq> set (nodes st i)"
  using removeChild_fields [OF assms] by (auto dest: in_remove1D)

lemma remove_node_shrinks:
  assumes "remove_node x st = Returns st'"
  shows "set (nodes st' i) \<subseteq> set (nodes st i)"
  using assms removeChild_shrinks
  by (cases "parent st x") (auto simp add: remove_node_Returns)

lemma removeEmptyParents_shrinks:
  "removeEmptyParents n cp st = Returns st' \<Longrightarrow> set (nodes st' i) \<subseteq> set (nodes st i)"
proof (induction n cp st rule: removeEmptyParents.induct)
  case (1 currentParent st)
  then show ?case by simp
next
  case (2 n st)
  then show ?case by simp
next
  case (3 n cp st)
  show ?case
  proof (cases "type st cp = Rule \<and> nodes st cp = []")
    case True
    with "3.prems" obtain st1 where r: "remove_node cp st = Returns st1"
      and rest: "removeEmptyParents n (parent st cp) st1 = Returns st'"
      by (auto simp add: Let_def and_then_Returns)
    from "3.IH" [OF _ _ refl rest] True remove_node_shrinks [OF r, of i] show ?thesis by auto
  next
    case False
    with "3.prems" show ?thesis by (auto split: if_splits)
  qed
qed

lemma removeEmptyParents_well_formed:
  "removeEmptyParents n cp st = Returns st' \<Longrightarrow> well_formed st root \<Longrightarrow>
     (\<forall>p. cp = Some p \<longrightarrow> p < fresh st) \<Longrightarrow> well_formed st' root \<and> evolves st st'"
proof (induction n cp st rule: removeEmptyParents.induct)
  case (1 currentParent st)
  then show ?case by simp
next
  case (2 n st)
  then show ?case by (simp add: evolves_refl)
next
  case (3 n cp st)
  have cp: "cp < fresh st" using "3.prems"(3) by simp
  show ?case
  proof (cases "type st cp = Rule \<and> nodes st cp = []")
    case True
    with "3.prems" obtain st1 where r: "remove_node cp st = Returns st1"
      and rest: "removeEmptyParents n (parent st cp) st1 = Returns st'"
      by (auto simp add: Let_def and_then_Returns)
    have wf1: "well_formed st1 root"
      by (rule remove_node_well_formed [OF r "3.prems"(2) cp])
    have "\<forall>p. parent st cp = Some p \<longrightarrow> type st p \<noteq> Root \<or> (nodes st cp = [] \<and> cp \<noteq> p)"
    proof (intro allI impI)
      fix p assume "parent st cp = Some p"
      from wf_parent [OF "3.prems"(2) cp this] True
      show "type st p \<noteq> Root \<or> (nodes st cp = [] \<and> cp \<noteq> p)" by auto
    qed
    then have ev1: "evolves st st1"
      using remove_node_evolves [OF r] True by blast
    have "\<forall>p. parent st cp = Some p \<longrightarrow> p < fresh st1"
      using wf_parent [OF "3.prems"(2) cp] remove_node_fields(1) [OF r] by simp
    from "3.IH" [OF _ _ refl rest wf1 this] True ev1 show ?thesis
      by (auto intro: evolves_trans)
  next
    case False
    with "3.prems" show ?thesis by (auto simp add: evolves_refl split: if_splits)
  qed
qed

text \<open>One visit of a rule that is a child of \<open>c\<close>.\<close>

lemma visitRule_well_formed:
  assumes v: "visitRule n root rule st = Returns st'"
    and wf: "well_formed st root" and c: "c < fresh st" and rc: "rule \<in> set (nodes st c)"
    and ty: "type st rule = Rule"
  shows "well_formed st' root" and "evolves st st'"
    and "rule \<in> set (nodes st' c) \<Longrightarrow> \<not> nested_decl_rule st' c rule"
proof -
  have pr: "parent st rule = Some c" and r: "rule < fresh st"
    using wf_child [OF wf c rc] by simp_all
  have rr: "rule \<noteq> root" by (rule wf_child_not_root [OF wf c rc])
  define promote where
    "promote = (type st c \<noteq> Root \<and> list_ex (\<lambda>node. type st node = Decl) (nodes st rule))"
  have "well_formed st' root \<and> evolves st st'
    \<and> (rule \<in> set (nodes st' c) \<longrightarrow> \<not> nested_decl_rule st' c rule)"
  proof (cases promote)
    case True
    with v pr obtain sels cl st1 st2 st3 where
      cl: "clone n rule (join sels '','') st = Returns (cl, st1)"
      and ap: "append_node root cl st1 = Returns st2"
      and rm: "remove_node rule st2 = Returns st3"
      and pr3: "removeEmptyParents n (Some c) st3 = Returns st'"
      by (auto simp add: visitRule_def promote_def and_then_Returns split: option.splits)
    note C = clone_well_formed [OF cl wf r rr]
    have st2: "st2 = st1\<lparr>parent := (parent st1)(cl := Some root),
               nodes := (nodes st1)(root := nodes st1 root @ [cl])\<rparr>"
      using ap C(5) by (simp add: append_node_parentless)
    have clr: "cl \<noteq> root" "cl < fresh st1" using C(2,3) wf_root(1) [OF wf] by auto
    have wf2: "well_formed st2 root"
      by (rule append_node_well_formed [OF C(5) C(1) clr(2) clr(1) st2])
    have f2: "fresh st2 = fresh st1" by (simp add: st2)
    have r2: "rule < fresh st2" "c < fresh st2" using r c C(3) by (simp_all add: f2)
    have wf3: "well_formed st3 root"
      by (rule remove_node_well_formed [OF rm wf2 r2(1)])
    have ev1: "evolves st st1"
      using unchanged_evolves [OF _ C(4)] C(3) by simp
    have ev2: "evolves st1 st2"
      using append_node_evolves [OF _ st2] wf_root(2) [OF C(1)] by simp
    have same2: "type st2 rule = Rule" "parent st2 rule = Some c" "type st2 c \<noteq> Root"
      using unchangedD [OF C(4) r] unchangedD [OF C(4) c] ty pr True C(2) r
      by (auto simp add: st2 promote_def)
    have ev3: "evolves st2 st3"
      using remove_node_evolves [OF rm same2(1)] same2(2,3) by simp
    have c3: "c < fresh st3" using r2 remove_node_fields(1) [OF rm] by simp
    from removeEmptyParents_well_formed [OF pr3 wf3] c3
    have wf': "well_formed st' root" and ev4: "evolves st3 st'" by simp_all
    have "rule \<notin> set (nodes st3 c)"
      using remove_node_detached [OF rm _ r2(2)] wf2 by (simp add: well_formed_def)
    then have "rule \<notin> set (nodes st' c)"
      using removeEmptyParents_shrinks [OF pr3, of c] by blast
    with wf' ev1 ev2 ev3 ev4 show ?thesis by (blast intro: evolves_trans)
  next
    case False
    with v pr have pr3: "removeEmptyParents n (Some c) st = Returns st'"
      by (auto simp add: visitRule_def promote_def split: if_splits)
    from removeEmptyParents_well_formed [OF pr3 wf] c
    have wf': "well_formed st' root" and ev: "evolves st st'" by simp_all
    have "\<not> nested_decl_rule st c rule"
      using False by (auto simp add: promote_def nested_decl_rule_def has_decl_def)
    then have "\<not> nested_decl_rule st' c rule"
      using nested_decl_rule_evolves [OF ev wf r c] by blast
    with wf' ev show ?thesis by simp
  qed
  then show "well_formed st' root" and "evolves st st'"
    and "rule \<in> set (nodes st' c) \<Longrightarrow> \<not> nested_decl_rule st' c rule"
    by simp_all
qed

lemma evolves_iterator_update:
  assumes ev: "evolves st0 st" and it: "lastEach st0 c < it"
  shows "evolves st0 (st\<lparr>indexes := (indexes st)(c := (indexes st c)(it := v))\<rparr>)"
proof -
  let ?st' = "st\<lparr>indexes := (indexes st)(c := (indexes st c)(it := v))\<rparr>"
  have "type ?st' i = type st0 i \<and> selector ?st' i = selector st0 i \<and> props ?st' i = props st0 i
    \<and> lastEach st0 i \<le> lastEach ?st' i
    \<and> (type st0 i \<noteq> Root \<longrightarrow> set (nodes ?st' i) \<subseteq> set (nodes st0 i))
    \<and> (\<forall>y\<in>set (nodes st0 i). y < fresh st0 \<longrightarrow>
          y \<in> set (nodes ?st' i) \<or> type st0 y = Rule \<and> (type st0 i \<noteq> Root \<or> nodes ?st' y = []))
    \<and> (\<forall>it idx. it \<le> lastEach st0 i \<and> indexes st0 i it = Some idx
            \<and> idx + 1 \<le> int (length (nodes st0 i)) \<longrightarrow>
          (\<exists>idx'. indexes ?st' i it = Some idx' \<and> idx' + 1 \<le> int (length (nodes ?st' i))
             \<and> set (take (nat (idx' + 1)) (nodes ?st' i)) \<subseteq> set (take (nat (idx + 1)) (nodes st0 i))))"
    if i: "i < fresh st0" for i
  proof -
    note E = ev [unfolded evolves_def, THEN conjunct2, rule_format, OF i]
    have "indexes ?st' i it' = indexes st i it'" if "it' \<le> lastEach st0 i" for it'
      using that it by auto
    with E show ?thesis by simp
  qed
  moreover have "fresh st0 \<le> fresh ?st'" using evolves_fresh [OF ev] by simp
  ultimately show ?thesis unfolding evolves_def by blast
qed

lemma evolves_new_iterator:
  "evolves st (st\<lparr>lastEach := (lastEach st)(c := lastEach st c + 1),
     indexes := (indexes st)(c := (indexes st c)(lastEach st c + 1 := v))\<rparr>)"
  unfolding evolves_def by auto

lemma walk_well_formed:
  "walkRules n root c st = Returns st' \<Longrightarrow> well_formed st root \<Longrightarrow> c < fresh st \<Longrightarrow>
     well_formed st' root \<and> evolves st st'"
  "each n root c it st = Returns st' \<Longrightarrow> well_formed st root \<Longrightarrow> c < fresh st \<Longrightarrow>
     evolves st0 st \<Longrightarrow> lastEach st0 c < it \<Longrightarrow>
     well_formed st' root \<and> evolves st0 st'"
proof (induction n root c st and n root c it st arbitrary: st' and st' st0
    rule: walkRules_each.induct)
  case (1 root container st)
  then show ?case by simp
next
  case (2 n root container st)
  define it where "it = lastEach st container + 1"
  define st1 where "st1 = st\<lparr>lastEach := (lastEach st)(container := it),
      indexes := (indexes st)(container := (indexes st container)(it := Some 0))\<rparr>"
  from "2.prems"(1) obtain st2 where
    e: "each n root container it st1 = Returns st2"
    and res: "st' = st2\<lparr>indexes := (indexes st2)(container := (indexes st2 container)(it := None))\<rparr>"
    by (auto simp add: Let_def and_then_Returns it_def st1_def)
  have ev1: "evolves st st1"
    unfolding st1_def it_def by (rule evolves_new_iterator)
  have wf1: "well_formed st1 root" using "2.prems"(2) by (simp add: st1_def)
  have c1: "container < fresh st1" using "2.prems"(3) by (simp add: st1_def)
  have lt: "lastEach st container < it" by (simp add: it_def)
  from "2.IH" [OF it_def st1_def e wf1 c1 ev1 lt]
  have wf2: "well_formed st2 root" and ev2: "evolves st st2" by simp_all
  from wf2 evolves_iterator_update [OF ev2 lt] show ?case by (simp add: res)
next
  case (3 root container iterator st)
  then show ?case by simp
next
  case (4 n root container iterator st)
  show ?case
  proof (cases "indexes st container iterator")
    case None
    with "4.prems" show ?thesis by simp
  next
    case (Some index)
    show ?thesis
    proof (cases "index < int (length (nodes st container))")
      case False
      with Some "4.prems" show ?thesis by simp
    next
      case True
      show ?thesis
      proof (cases "index < 0")
        case neg: True
        with True Some "4.prems"(1) show ?thesis by simp
      next
        case False
        define child where "child = nodes st container ! nat index"
        have unfold: "each (Suc n) root container iterator st =
            and_then (if type st child = Rule then visitRule n root child st else Returns st)
              (\<lambda>st1. and_then
                 (if isContainer (type st1 child) then walkRules n root child st1 else Returns st1)
                 (\<lambda>st2. each n root container iterator
                    (st2\<lparr>indexes := (indexes st2)(container := (indexes st2 container)(iterator :=
                       map_option (\<lambda>i. i + 1) (indexes st2 container iterator)))\<rparr>)))"
          using Some True False unfolding child_def by (simp add: Let_def)
        from "4.prems"(1) [unfolded unfold] obtain st1 st2 where
          v: "(if type st child = Rule then visitRule n root child st else Returns st) = Returns st1"
          and w: "(if isContainer (type st1 child) then walkRules n root child st1 else Returns st1)
                = Returns st2"
          and rest: "each n root container iterator
                (st2\<lparr>indexes := (indexes st2)(container := (indexes st2 container)(iterator :=
                    map_option (\<lambda>i. i + 1) (indexes st2 container iterator)))\<rparr>) = Returns st'"
          unfolding and_then_Returns by blast
        have ch: "child \<in> set (nodes st container)"
          using True False by (simp add: child_def)
        have ch_lt: "child < fresh st"
          using wf_child [OF "4.prems"(2,3) ch] by simp
        have s1: "well_formed st1 root \<and> evolves st st1"
        proof (cases "type st child = Rule")
          case True
          with v have "visitRule n root child st = Returns st1" by simp
          from visitRule_well_formed(1,2) [OF this "4.prems"(2,3) ch True] show ?thesis by simp
        next
          case False
          with v "4.prems"(2) show ?thesis by (simp add: evolves_refl)
        qed
        have ch1: "child < fresh st1" using ch_lt evolves_fresh [of st st1] s1 by simp
        have s2: "well_formed st2 root \<and> evolves st1 st2"
        proof (cases "isContainer (type st1 child)")
          case cont: True
          with w have "walkRules n root child st1 = Returns st2" by simp
          from "4.IH"(1) [OF Some True False child_def cont this] s1 ch1
          show ?thesis by simp
        next
          case False
          with w s1 show ?thesis by (simp add: evolves_refl)
        qed
        have ev02: "evolves st0 st2"
          using "4.prems"(4) s1 s2 by (blast intro: evolves_trans)
        let ?st3 = "st2\<lparr>indexes := (indexes st2)(container := (indexes st2 container)(iterator :=
                    map_option (\<lambda>i. i + 1) (indexes st2 container iterator)))\<rparr>"
        have wf3: "well_formed ?st3 root" using s2 by simp
        have c3: "container < fresh ?st3"
          using "4.prems"(3) s1 s2 evolves_fresh [of st st1] evolves_fresh [of st1 st2] by simp
        have ev3: "evolves st0 ?st3"
          by (rule evolves_iterator_update [OF ev02 "4.prems"(5)])
        from "4.IH"(2) [OF Some True False child_def rest wf3 c3 ev3 "4.prems"(5)]
        show ?thesis .
      qed
    qed
  qed
qed

lemma descendant_unfold:
  "descendant st c d \<longleftrightarrow> d = c \<or> (\<exists>x\<in>set (nodes st c). descendant st x d)"
  by (auto elim: descendant.cases intro: descendant.intros)

lemma flat_unfold: "flat st c \<longleftrightarrow> clean st c \<and> (\<forall>x\<in>set (nodes st c). flat st x)"
  unfolding flat_def by (subst descendant_unfold) blast

lemma descendant_same_nodes:
  assumes "nodes st' = nodes st"
  shows "descendant st' c d \<longleftrightarrow> descendant st c d"
proof
  show "descendant st' c d \<Longrightarrow> descendant st c d"
    by (induction rule: descendant.induct) (auto intro: descendant.intros simp add: assms)
  show "descendant st c d \<Longrightarrow> descendant st' c d"
    by (induction rule: descendant.induct) (auto intro: descendant.intros simp add: assms)
qed

lemma flat_same:
  assumes "nodes st' = nodes st" and "type st' = type st"
  shows "flat st' c \<longleftrightarrow> flat st c"
    and "nested_decl_rule st' c x \<longleftrightarrow> nested_decl_rule st c x"
  using assms descendant_same_nodes [OF assms(1)]
  by (simp_all add: flat_def clean_def nested_decl_rule_def has_decl_def)





lemma flat_leaf: "nodes st x = [] \<Longrightarrow> flat st x"
  by (subst flat_unfold) (simp add: clean_def)



section \<open>Deep copies and the loop over the empty parents\<close>

lemma fold_max_ge: "(a::nat) \<le> fold max xs a"
proof (induction xs arbitrary: a)
  case Nil
  show ?case by simp
next
  case (Cons x xs)
  have "a \<le> max x a" by simp
  also have "\<dots> \<le> fold max xs (max x a)" by (rule Cons.IH)
  finally show ?case by simp
qed

lemma fold_max_le: "x \<in> set xs \<Longrightarrow> x \<le> fold max xs (a::nat)"
proof (induction xs arbitrary: a)
  case Nil
  then show ?case by simp
next
  case (Cons y ys)
  show ?case
  proof (cases "x = y")
    case True
    have "y \<le> max y a" by simp
    also have "\<dots> \<le> fold max ys (max y a)" by (rule fold_max_ge)
    finally show ?thesis using True by simp
  next
    case False
    with Cons show ?thesis by simp
  qed
qed

lemma height_child: "k \<in> set ks \<Longrightarrow> height k < height (Node ty sel pr ks)"
  using fold_max_le [of "height k" "map height ks" 0] by (simp add: less_Suc_eq_le)

lemma tree_at_frame:
  assumes "tree_at st lo i t"
    and same: "\<And>j. lo \<le> j \<Longrightarrow> j < fresh st \<Longrightarrow>
        type st' j = type st j \<and> selector st' j = selector st j \<and> props st' j = props st j
        \<and> nodes st' j = nodes st j"
    and le: "fresh st \<le> fresh st'"
  shows "tree_at st' lo i t"
  using assms(1)
proof (induction rule: tree_at.induct)
  case (tree_at_node i ty sel pr ks)
  have "list_all2 (tree_at st' lo) (nodes st i) ks"
    using tree_at_node.IH by (rule list_all2_mono) simp
  with tree_at_node.hyps same [OF tree_at_node.hyps(1,2)] le show ?case
    by (intro tree_at.intros) simp_all
qed

lemma tree_at_weaken:
  assumes "tree_at st lo i t" and "lo' \<le> lo"
  shows "tree_at st lo' i t"
  using assms(1)
proof (induction rule: tree_at.induct)
  case (tree_at_node i ty sel pr ks)
  have "list_all2 (tree_at st lo') (nodes st i) ks"
    using tree_at_node.IH by (rule list_all2_mono) simp
  with tree_at_node.hyps assms(2) show ?case
    by (intro tree_at.intros) simp_all
qed

lemma tree_at_unchanged:
  assumes "tree_at st lo i t" and "unchanged_below (fresh st) st st'" and "fresh st \<le> fresh st'"
  shows "tree_at st' lo i t"
  using assms(1)
  by (rule tree_at_frame) (use assms(2,3) in \<open>simp_all add: unchangedD\<close>)

lemma list_all2_tree_at_unchanged:
  assumes "list_all2 (tree_at st lo) xs ks" and "unchanged_below (fresh st) st st'"
    and "fresh st \<le> fresh st'"
  shows "list_all2 (tree_at st' lo) xs ks"
  using assms(1) by (rule list_all2_mono) (rule tree_at_unchanged [OF _ assms(2,3)])

text \<open>With enough fuel the clone of a finite subtree returns, and the clone holds the
  same tree in the fresh part of the store.\<close>

lemma clone_tree:
  "tree_at st 0 obj t \<Longrightarrow> height t \<le> n \<Longrightarrow>
     \<exists>c st'. cloneNode n obj par st = Returns (c, st') \<and> tree_at st' (fresh st) c t
       \<and> list_all2 (tree_at st' (Suc (fresh st))) (nodes st' c) (case t of Node ty sel pr ks \<Rightarrow> ks)"
  "list_all2 (tree_at st 0) objs ks \<Longrightarrow> (\<forall>k\<in>set ks. height k \<le> n) \<Longrightarrow>
     \<exists>cs st'. cloneNodes n objs p st = Returns (cs, st')
       \<and> list_all2 (tree_at st' (fresh st)) cs ks"
proof (induction n obj par st and n objs p st arbitrary: t and ks
    rule: cloneNode_cloneNodes.induct)
  case (1 obj par st)
  then show ?case by (cases t) simp
next
  case (2 n obj par st)
  define st1 where "st1 = st\<lparr>fresh := Suc (fresh st), type := (type st)(fresh st := type st obj),
                selector := (selector st)(fresh st := selector st obj),
                parent := (parent st)(fresh st := par),
                nodes := (nodes st)(fresh st := []),
                props := (props st)(fresh st := props st obj),
                indexes := (indexes st)(fresh st := indexes st obj),
                lastEach := (lastEach st)(fresh st := lastEach st obj)\<rparr>"
  from "2.prems"(1) obtain ty sel pr ks where t: "t = Node ty sel pr ks"
    and obj: "obj < fresh st" "type st obj = ty" "selector st obj = sel" "props st obj = pr"
    and kids: "list_all2 (tree_at st 0) (nodes st obj) ks"
    by (auto elim: tree_at.cases)
  have hs: "\<forall>k\<in>set ks. height k \<le> n"
    using "2.prems"(2) height_child [of _ ks ty sel pr] unfolding t by fastforce
  have ub1: "unchanged_below (fresh st) st st1" by (simp add: unchanged_below_def st1_def)
  have kids1: "list_all2 (tree_at st1 0) (nodes st obj) ks"
    by (rule list_all2_tree_at_unchanged [OF kids ub1]) (simp add: st1_def)
  from "2.IH" [OF refl st1_def kids1 hs] obtain cs st2 where
    inner: "cloneNodes n (nodes st obj) (fresh st) st1 = Returns (cs, st2)"
    and copies: "list_all2 (tree_at st2 (fresh st1)) cs ks"
    by blast
  let ?st' = "st2\<lparr>nodes := (nodes st2)(fresh st := cs)\<rparr>"
  have f1: "fresh st1 = Suc (fresh st)" by (simp add: st1_def)
  note fr = clone_frame(2) [OF inner, unfolded f1]
  have res: "cloneNode (Suc n) obj par st = Returns (fresh st, ?st')"
    using inner by (simp add: Let_def st1_def [symmetric])
  have top: "type st2 (fresh st) = ty" "selector st2 (fresh st) = sel" "props st2 (fresh st) = pr"
    using fr obj by (auto simp add: unchanged_below_def st1_def)
  have copies': "list_all2 (tree_at ?st' (Suc (fresh st))) cs ks"
    using copies unfolding f1
    by (rule list_all2_mono) (erule tree_at_frame, simp_all)
  then have "list_all2 (tree_at ?st' (fresh st)) cs ks"
    by (rule list_all2_mono) (erule tree_at_weaken, simp)
  then have "tree_at ?st' (fresh st) (fresh st) (Node ty sel pr ks)"
    using top fr by (intro tree_at.intros) simp_all
  with res copies' show ?case by (simp add: t)
next
  case (3 n par st)
  then show ?case by simp
next
  case (4 n child children par st)
  from "4.prems"(1) obtain k ks' where ks: "ks = k # ks'"
    and k: "tree_at st 0 child k" and rest: "list_all2 (tree_at st 0) children ks'"
    by (auto simp add: list_all2_Cons1)
  have hk: "height k \<le> n" and hks: "\<forall>k\<in>set ks'. height k \<le> n"
    using "4.prems"(2) by (simp_all add: ks)
  from "4.IH"(1) [OF k hk] obtain c st1 where
    first: "cloneNode n child (Some par) st = Returns (c, st1)"
    and copy: "tree_at st1 (fresh st) c k"
    by blast
  note frA = clone_frame(1) [OF first]
  have rest1: "list_all2 (tree_at st1 0) children ks'"
    using list_all2_tree_at_unchanged [OF rest] frA by simp
  from "4.IH"(2) [OF rest1 hks] obtain cs st2 where
    others: "cloneNodes n children par st1 = Returns (cs, st2)"
    and copies: "list_all2 (tree_at st2 (fresh st1)) cs ks'"
    by blast
  note frB = clone_frame(2) [OF others]
  have "tree_at st2 (fresh st) c k"
    using tree_at_unchanged [OF copy] frB by simp
  moreover have "list_all2 (tree_at st2 (fresh st)) cs ks'"
    using copies by (rule list_all2_mono) (erule tree_at_weaken, use frA in simp)
  ultimately show ?case using first others by (simp add: ks)
qed

lemma removeEmptyParents_unfold:
  "removeEmptyParents (Suc n) (Some cp) st =
     (if type st cp = Rule \<and> nodes st cp = []
      then and_then (remove_node cp st) (\<lambda>st1. removeEmptyParents n (parent st cp) st1)
      else Returns st)"
  by (simp add: Let_def)

text \<open>What the loop leaves alone: with the parent references of the objects below \<open>k\<close>
  closed under \<open>k\<close>, the loop started below \<open>k\<close> changes no child array from \<open>k\<close> on
  and removes no child from \<open>k\<close> on.\<close>

lemma removeEmptyParents_frame:
  "removeEmptyParents n cp st = Returns st' \<Longrightarrow> (\<forall>p. cp = Some p \<longrightarrow> p < k) \<Longrightarrow>
     (\<forall>x<k. \<forall>g. parent st x = Some g \<longrightarrow> g < k) \<Longrightarrow>
     fresh st' = fresh st \<and> type st' = type st \<and> selector st' = selector st
     \<and> props st' = props st
     \<and> (\<forall>j. k \<le> j \<longrightarrow> nodes st' j = nodes st j \<and> parent st' j = parent st j)
     \<and> (\<forall>j y. y \<in> set (nodes st j) \<and> k \<le> y \<longrightarrow> y \<in> set (nodes st' j))"
proof (induction n arbitrary: cp st)
  case 0
  then show ?case by simp
next
  case (Suc n)
  show ?case
  proof (cases cp)
    case None
    with Suc.prems show ?thesis by simp
  next
    case (Some p)
    have pk: "p < k" using Suc.prems(2) Some by simp
    show ?thesis
    proof (cases "type st p = Rule \<and> nodes st p = []")
      case False
      with Suc.prems(1) Some show ?thesis by (simp add: removeEmptyParents_unfold del: removeEmptyParents.simps(3))
    next
      case True
      with Suc.prems(1) Some obtain st1 where r: "remove_node p st = Returns st1"
        and rest: "removeEmptyParents n (parent st p) st1 = Returns st'"
        by (auto simp add: removeEmptyParents_unfold and_then_Returns simp del: removeEmptyParents.simps(3))
      note f = remove_node_fields [OF r]
      have up: "\<forall>q. parent st p = Some q \<longrightarrow> q < k" using Suc.prems(3) pk by blast
      have closed: "\<forall>x<k. \<forall>g. parent st1 x = Some g \<longrightarrow> g < k"
        using Suc.prems(3) by (auto simp add: f split: if_splits)
      note IH = Suc.IH [OF rest up closed]
      have n1: "\<forall>j. k \<le> j \<longrightarrow> nodes st1 j = nodes st j \<and> parent st1 j = parent st j"
        using up pk by (auto simp add: f split: option.splits)
      have k1: "\<forall>j y. y \<in> set (nodes st j) \<and> k \<le> y \<longrightarrow> y \<in> set (nodes st1 j)"
        using pk by (auto simp add: f split: option.splits)
      from IH n1 k1 show ?thesis by (simp add: f(1-5))
    qed
  qed
qed

text \<open>The loop returns when it has fuel for every object that still has a parent.\<close>

lemma removeEmptyParents_returns:
  "well_formed st root \<Longrightarrow> k \<le> fresh st \<Longrightarrow> (\<forall>p. cp = Some p \<longrightarrow> p < k) \<Longrightarrow>
     (\<forall>x<k. \<forall>g. parent st x = Some g \<longrightarrow> g < k) \<Longrightarrow>
     card {x. x < k \<and> parent st x \<noteq> None} + 2 \<le> n \<Longrightarrow>
     \<exists>st'. removeEmptyParents n cp st = Returns st'"
proof (induction n arbitrary: cp st)
  case 0
  then show ?case by simp
next
  case (Suc n)
  show ?case
  proof (cases cp)
    case None
    then show ?thesis by simp
  next
    case (Some p)
    have pk: "p < k" using Suc.prems(3) Some by simp
    then have pf: "p < fresh st" using Suc.prems(2) by simp
    show ?thesis
    proof (cases "type st p = Rule \<and> nodes st p = []")
      case False
      with Some show ?thesis by (auto simp add: removeEmptyParents_unfold simp del: removeEmptyParents.simps(3))
    next
      case True
      show ?thesis
      proof (cases "parent st p")
        case None
        then have r: "remove_node p st = Returns st"
          by (simp add: remove_node_def parent_update_idem)
        have "\<exists>st'. removeEmptyParents n None st = Returns st'"
          using Suc.prems(5) by (cases n) simp_all
        with True Some None r show ?thesis by (simp add: removeEmptyParents_unfold del: removeEmptyParents.simps(3))
      next
        case (Some g)
        have gk: "g < k" using Suc.prems(4) pk Some by blast
        have "p \<in> set (nodes st g)" using wf_parent [OF Suc.prems(1) pf Some] by simp
        then obtain i where "indexOf (nodes st g) p = Some i"
          by (cases "indexOf (nodes st g) p") (simp_all add: indexOf_None_iff)
        then obtain st1 where rc: "removeChild g p st = Returns st1"
          by (simp add: removeChild_def)
        then have r: "remove_node p st = Returns st1"
          using Some by (simp add: remove_node_Returns)
        note f = remove_node_fields [OF r]
        have wf1: "well_formed st1 root" by (rule remove_node_well_formed [OF r Suc.prems(1) pf])
        have closed: "\<forall>x<k. \<forall>g. parent st1 x = Some g \<longrightarrow> g < k"
          using Suc.prems(4) by (auto simp add: f split: if_splits)
        have set_eq: "{x. x < k \<and> parent st1 x \<noteq> None} = {x. x < k \<and> parent st x \<noteq> None} - {p}"
          by (auto simp add: f)
        have mem: "p \<in> {x. x < k \<and> parent st x \<noteq> None}" using pk Some by simp
        have fin: "finite {x. x < k \<and> parent st x \<noteq> None}" by simp
        have "card {x. x < k \<and> parent st1 x \<noteq> None} < card {x. x < k \<and> parent st x \<noteq> None}"
          unfolding set_eq by (rule card_Diff1_less [OF fin mem])
        then have fuel: "card {x. x < k \<and> parent st1 x \<noteq> None} + 2 \<le> n"
          using Suc.prems(5) by simp
        have "\<forall>q. parent st p = Some q \<longrightarrow> q < k" using gk Some by simp
        from Suc.IH [OF wf1 _ this closed fuel] Suc.prems(2)
        obtain st' where "removeEmptyParents n (parent st p) st1 = Returns st'"
          by (auto simp add: f)
        with True \<open>cp = Some p\<close> r show ?thesis by (simp add: removeEmptyParents_unfold del: removeEmptyParents.simps(3))
      qed
    qed
  qed
qed

lemma card_attached_le: "card {x. x < k \<and> parent st x \<noteq> None} \<le> k"
proof -
  have "card {x. x < k \<and> parent st x \<noteq> None} \<le> card {..<k}"
    by (rule card_mono) auto
  then show ?thesis by simp
qed

lemma removeEmptyParents_parent_None:
  "removeEmptyParents n cp st = Returns st' \<Longrightarrow> parent st x = None \<Longrightarrow> parent st' x = None"
proof (induction n arbitrary: cp st)
  case 0
  then show ?case by simp
next
  case (Suc n)
  show ?case
  proof (cases cp)
    case None
    with Suc.prems show ?thesis by simp
  next
    case (Some p)
    show ?thesis
    proof (cases "type st p = Rule \<and> nodes st p = []")
      case False
      with Suc.prems Some show ?thesis
        by (auto simp add: removeEmptyParents_unfold simp del: removeEmptyParents.simps(3))
    next
      case True
      with Suc.prems(1) Some obtain st1 where r: "remove_node p st = Returns st1"
        and rest: "removeEmptyParents n (parent st p) st1 = Returns st'"
        by (auto simp add: removeEmptyParents_unfold and_then_Returns
              simp del: removeEmptyParents.simps(3))
      have "parent st1 x = None" using Suc.prems(2) by (simp add: remove_node_fields [OF r])
      from Suc.IH [OF rest this] show ?thesis .
    qed
  qed
qed

lemma visitRule_promote:
  assumes par: "parent st R = Some P"
    and cond: "type st P \<noteq> Root" "has_decl st R"
    and fs: "buildFlattenedSelectors st (Some R) = Some sels"
    and cl: "clone n R (join sels '','') st = Returns (c, st1)"
    and ap: "append_node root c st1 = Returns st2"
    and rm: "remove_node R st2 = Returns st3"
    and pr: "removeEmptyParents n (Some P) st3 = Returns st'"
  shows "visitRule n root R st = Returns st'"
  using assms by (simp add: visitRule_def has_decl_def)



lemma visitRule_promote_result:
  assumes wf: "well_formed st root"
    and par: "parent st R = Some P" and notroot: "type st P \<noteq> Root"
    and decl: "has_decl st R"
    and tr: "tree_at st 0 R (Node Rule sel pr ks)"
    and fs: "buildFlattenedSelectors st (Some R) = Some sels"
    and fuel: "fresh st + 2 \<le> n" "height (Node Rule sel pr ks) \<le> n"
  shows "\<exists>st'. visitRule n root R st = Returns st'
      \<and> fresh st \<in> set (nodes st' root) \<and> fresh st \<notin> set (nodes st root)
      \<and> parent st' (fresh st) = Some root
      \<and> tree_at st' 0 (fresh st) (Node Rule (Some (join sels '','')) pr ks)
      \<and> R \<notin> set (nodes st' P) \<and> parent st' R = None"
proof -
  define c where "c = fresh st"
  define joined where "joined = join sels '',''"
  from tr have R: "R < fresh st" "type st R = Rule" by (auto elim: tree_at.cases)
  have P: "P < fresh st" "R \<in> set (nodes st P)" using wf_parent [OF wf R(1) par] by simp_all
  have root: "root < fresh st" "type st root = Root" using wf_root [OF wf] by simp_all
  have Rr: "R \<noteq> root" and Pr: "P \<noteq> root" using R(2) root(2) notroot by auto
  \<comment> \<open>the clone\<close>
  from clone_tree(1) [OF tr fuel(2), of None] obtain c' st1' where
    cn: "cloneNode n R None st = Returns (c', st1')"
    and t1': "tree_at st1' (fresh st) c' (Node Rule sel pr ks)"
    and k1': "list_all2 (tree_at st1' (Suc (fresh st))) (nodes st1' c') ks"
    by auto
  have c': "c' = c" using clone_frame(1) [OF cn] by (simp add: c_def)
  define st1 where "st1 = st1'\<lparr>selector := (selector st1')(c := Some joined)\<rparr>"
  have cl: "clone n R joined st = Returns (c, st1)"
    using cn by (simp add: clone_def st1_def c')
  note C = clone_well_formed [OF cl wf R(1) Rr]
  have top1: "c < fresh st1'" "type st1' c = Rule" "props st1' c = pr"
    using t1' by (auto elim: tree_at.cases simp add: c')
  have k1: "list_all2 (tree_at st1 (Suc c)) (nodes st1 c) ks"
  proof -
    have "list_all2 (tree_at st1 (Suc c)) (nodes st1' c) ks"
      using k1' unfolding c' c_def [symmetric]
      by (rule list_all2_mono) (erule tree_at_frame, simp_all add: st1_def)
    then show ?thesis by (simp add: st1_def)
  qed
  have t1: "tree_at st1 c c (Node Rule (Some joined) pr ks)"
  proof (rule tree_at.intros)
    show "list_all2 (tree_at st1 c) (nodes st1 c) ks"
      using k1 by (rule list_all2_mono) (erule tree_at_weaken, simp)
  qed (use top1 in \<open>simp_all add: st1_def\<close>)
  \<comment> \<open>appended to the root\<close>
  define st2 where "st2 = st1\<lparr>parent := (parent st1)(c := Some root),
               nodes := (nodes st1)(root := nodes st1 root @ [c])\<rparr>"
  have ap: "append_node root c st1 = Returns st2"
    using C(5) by (simp add: append_node_parentless st2_def)
  have cr: "c \<noteq> root" "c < fresh st1" "root < c" using C(2,3) root(1) by (auto simp add: c_def)
  have wf2: "well_formed st2 root"
    by (rule append_node_well_formed [OF C(5) C(1) cr(2) cr(1) st2_def])
  have t2: "tree_at st2 c c (Node Rule (Some joined) pr ks)"
    using t1 by (rule tree_at_frame) (use cr in \<open>auto simp add: st2_def\<close>)
  \<comment> \<open>the original removed\<close>
  have old2: "parent st2 x = parent st x" "nodes st2 P = nodes st P" if "x < fresh st" for x
    using unchangedD(4) [OF C(4) that] unchangedD(5) [OF C(4) P(1)] that Pr
    by (auto simp add: st2_def c_def C(2))
  have "R \<in> set (nodes st2 P)" using P(2) old2(2) [OF R(1)] by simp
  then obtain i where "indexOf (nodes st2 P) R = Some i"
    by (cases "indexOf (nodes st2 P) R") (simp_all add: indexOf_None_iff)
  then obtain st3 where rc: "removeChild P R st2 = Returns st3"
    by (simp add: removeChild_def)
  have p2: "parent st2 R = Some P" using old2(1) [OF R(1)] par by simp
  then have rm: "remove_node R st2 = Returns st3"
    using rc by (simp add: remove_node_Returns)
  note f3 = remove_node_fields [OF rm]
  have R2: "R < fresh st2" "P < fresh st2" using R(1) P(1) C(3) by (simp_all add: st2_def)
  have wf3: "well_formed st3 root" by (rule remove_node_well_formed [OF rm wf2 R2(1)])
  have t3: "tree_at st3 c c (Node Rule (Some joined) pr ks)"
    using t2 by (rule tree_at_frame) (use P(1) p2 in \<open>auto simp add: f3 c_def\<close>)
  \<comment> \<open>empty parents removed\<close>
  have closed: "\<forall>x<c. \<forall>g. parent st3 x = Some g \<longrightarrow> g < c"
  proof (intro allI impI)
    fix x g assume x: "x < c" and g: "parent st3 x = Some g"
    then have "parent st x = Some g"
      using old2(1) [of x] by (auto simp add: f3 c_def split: if_splits)
    with wf_parent [OF wf] x show "g < c" by (auto simp add: c_def)
  qed
  have Pc: "\<forall>p. Some P = Some p \<longrightarrow> p < c" using P(1) by (simp add: c_def)
  have c3: "c \<le> fresh st3" using C(3) by (simp add: f3 st2_def c_def)
  have "card {x. x < c \<and> parent st3 x \<noteq> None} + 2 \<le> n"
    using card_attached_le [of c st3] fuel(1) by (simp add: c_def)
  from removeEmptyParents_returns [OF wf3 c3 Pc closed this]
  obtain st' where pr: "removeEmptyParents n (Some P) st3 = Returns st'" by blast
  note F = removeEmptyParents_frame [OF pr Pc closed]
  have run: "visitRule n root R st = Returns st'"
    using visitRule_promote [OF par notroot decl fs cl [unfolded joined_def] ap rm pr] .
  have t': "tree_at st' c c (Node Rule (Some joined) pr ks)"
    using t3 by (rule tree_at_frame) (use F in simp_all)
  have "c \<in> set (nodes st3 root)"
    using Pr p2 by (auto simp add: f3 st2_def)
  then have in_root: "c \<in> set (nodes st' root)" using F by blast
  have fresh_new: "c \<notin> set (nodes st root)"
    using wf_child [OF wf root(1), of c] by (auto simp add: c_def)
  have "parent st3 c = Some root" using R(1) by (auto simp add: f3 st2_def c_def)
  then have pc: "parent st' c = Some root" using F by simp
  have "R \<notin> set (nodes st3 P)"
    using remove_node_detached [OF rm _ R2(2)] wf2 by (simp add: well_formed_def)
  then have gone: "R \<notin> set (nodes st' P)"
    using removeEmptyParents_shrinks [OF pr, of P] by blast
  have "parent st3 R = None" by (simp add: f3)
  then have pR: "parent st' R = None" by (rule removeEmptyParents_parent_None [OF pr])
  from run in_root fresh_new pc tree_at_weaken [OF t', of 0] gone pR
  show ?thesis by (auto simp add: c_def joined_def)
qed

lemma ancestor_fresh:
  assumes wf: "well_formed st root"
  shows "ancestor st x a \<Longrightarrow> x < fresh st \<Longrightarrow> a < fresh st"
  by (induction rule: ancestor.induct) (use wf_parent [OF wf] in blast)+






text \<open>The store of a promoting visit just before the loop over the empty parents.\<close>

lemma visitRule_promote_steps:
  assumes run: "visitRule n root R st = Returns st'"
    and wf: "well_formed st root"
    and par: "parent st R = Some P" and notroot: "type st P \<noteq> Root"
    and decl: "has_decl st R" and R: "R < fresh st"
  shows "\<exists>st3. removeEmptyParents n (Some P) st3 = Returns st' \<and> well_formed st3 root
    \<and> fresh st \<le> fresh st3 \<and> type st3 P = type st P
    \<and> nodes st3 P = remove1 R (nodes st P)
    \<and> (P \<noteq> R \<longrightarrow> parent st3 P = parent st P)
    \<and> type st3 root = Root"
proof -
  have P: "P < fresh st" "R \<in> set (nodes st P)" using wf_parent [OF wf R par] by simp_all
  have root: "root < fresh st" "type st root = Root" using wf_root [OF wf] by simp_all
  have Pr: "P \<noteq> root" using root(2) notroot by auto
  have Rr: "R \<noteq> root" by (rule wf_child_not_root [OF wf P])
  from run par notroot decl obtain sels c st1 st2 st3 where
    cl: "clone n R (join sels '','') st = Returns (c, st1)"
    and ap: "append_node root c st1 = Returns st2"
    and rm: "remove_node R st2 = Returns st3"
    and pr3: "removeEmptyParents n (Some P) st3 = Returns st'"
    by (auto simp add: visitRule_def has_decl_def and_then_Returns split: option.splits)
  note C = clone_well_formed [OF cl wf R Rr]
  have st2: "st2 = st1\<lparr>parent := (parent st1)(c := Some root),
               nodes := (nodes st1)(root := nodes st1 root @ [c])\<rparr>"
    using ap C(5) by (simp add: append_node_parentless)
  have cr: "c \<noteq> root" "c < fresh st1" using C(2,3) root(1) by auto
  have wf2: "well_formed st2 root"
    by (rule append_node_well_formed [OF C(5) C(1) cr(2) cr(1) st2])
  have R2: "R < fresh st2" using R C(3) by (simp add: st2)
  have wf3: "well_formed st3 root" by (rule remove_node_well_formed [OF rm wf2 R2])
  note f3 = remove_node_fields [OF rm]
  have p2: "parent st2 R = Some P" "parent st2 P = parent st P" "nodes st2 P = nodes st P"
    "type st2 P = type st P" "type st2 root = Root"
    using unchangedD [OF C(4) R] unchangedD [OF C(4) P(1)] unchangedD [OF C(4) root(1)]
      par Pr R P(1) C(2) root(2)
    by (auto simp add: st2)
  have "nodes st3 P = remove1 R (nodes st P)" using p2 by (simp add: f3)
  moreover have "P \<noteq> R \<longrightarrow> parent st3 P = parent st P" using p2 by (simp add: f3)
  moreover have "fresh st \<le> fresh st3" using C(3) by (simp add: f3 st2)
  ultimately show ?thesis using pr3 wf3 p2 by (auto simp add: f3)
qed

lemma visitRule_empties_root_rule:
  assumes run: "visitRule n root R st = Returns st'"
    and wf: "well_formed st root"
    and par: "parent st R = Some P" and decl: "has_decl st R" and R: "R < fresh st"
    and P: "type st P = Rule" "nodes st P = [R]" "parent st P = Some root"
  shows "P \<notin> set (nodes st' root) \<and> parent st' P = None \<and> nodes st' P = []"
proof -
  have PR: "P \<noteq> R" using par P(3) P(1) wf_root(2) [OF wf] by auto
  from visitRule_promote_steps [OF run wf par _ decl R] P(1) PR obtain st3 where
    pr3: "removeEmptyParents n (Some P) st3 = Returns st'" and wf3: "well_formed st3 root"
    and fr: "fresh st \<le> fresh st3"
    and P3: "type st3 P = Rule" "nodes st3 P = []" "parent st3 P = Some root"
    and r3: "type st3 root = Root"
    by (auto simp add: P)
  from pr3 obtain m where n: "n = Suc m" by (cases n) auto
  from pr3 P3 obtain st4 where rm: "remove_node P st3 = Returns st4"
    and rest: "removeEmptyParents m (Some root) st4 = Returns st'"
    unfolding n
    by (auto simp add: removeEmptyParents_unfold and_then_Returns
          simp del: removeEmptyParents.simps(3))
  note f4 = remove_node_fields [OF rm]
  from rest obtain m' where m: "m = Suc m'" by (cases m) auto
  have "st' = st4"
    using rest r3 unfolding m
    by (simp add: removeEmptyParents_unfold f4 del: removeEmptyParents.simps(3))
  moreover have "P \<notin> set (nodes st4 root)"
    using remove_node_detached [OF rm _ wf_root(1) [OF wf3]] wf3 by (simp add: well_formed_def)
  moreover have "nodes st4 P = []" using P3 by (auto simp add: f4)
  ultimately show ?thesis by (simp add: f4)
qed

section \<open>The transform as a whole\<close>

text \<open>Evaluation rules for concrete stores.\<close>

lemmas eval_simps = buildFlattenedSelectors_None
  buildFlattenedSelectors.simps [of _ "Some r" for r, simplified]
  visitRule_def OnceExit_def and_then_def clone_def append_node_def
  remove_node_def removeChild_def Let_def isContainer_def selector_eval

lemma less_4: "(i::nat) < 4 \<longleftrightarrow> i = 0 \<or> i = 1 \<or> i = 2 \<or> i = 3"
  by auto

lemma wf_nested: "well_formed nested_store 0"
  by (simp add: well_formed_def children_ok_def parents_ok_def leaves_ok_def root_ok_def
      nested_store_def less_4 isContainer_def)




section \<open>Rules that a visit leaves alone\<close>

lemma visitRule_skip:
  assumes p: "parent st R = Some P" and m: "R \<in> set (nodes st P)"
    and skip: "type st P = Root \<or> \<not> has_decl st R"
  shows "visitRule (Suc n) root R st = Returns st"
proof -
  have "removeEmptyParents (Suc n) (Some P) st = Returns st"
    using m by (cases "nodes st P") auto
  with p skip show ?thesis
    by (auto simp add: visitRule_def has_decl_def)
qed

lemma root_rule_survives:
  assumes run: "OnceExit m root st = Returns st'" and wf: "well_formed st root"
    and R: "R \<in> set (nodes st root)" "type st R = Rule" "nodes st R \<noteq> []"
      "\<forall>d\<in>set (nodes st R). type st d = Decl"
  shows "R \<in> set (nodes st' root) \<and> selector st' R = selector st R
    \<and> set (nodes st' R) = set (nodes st R)"
proof -
  have r: "root < fresh st" by (rule wf_root(1) [OF wf])
  from run have w: "walkRules m root root st = Returns st'" by (simp add: OnceExit_def)
  from walk_well_formed(1) [OF w wf r] have ev: "evolves st st'" by simp
  have Rl: "R < fresh st" using wf_child [OF wf r R(1)] by simp
  have sub: "set (nodes st' R) \<subseteq> set (nodes st R)"
    using evolvesD(5) [OF ev Rl] R(2) by simp
  have sup: "set (nodes st R) \<subseteq> set (nodes st' R)"
  proof
    fix d assume d: "d \<in> set (nodes st R)"
    then have dl: "d < fresh st" using wf_child [OF wf Rl] by blast
    from evolves_kept [OF ev Rl d dl] R(4) d show "d \<in> set (nodes st' R)" by auto
  qed
  from R(3) sup have "nodes st' R \<noteq> []" by (cases "nodes st R") auto
  with evolves_kept [OF ev r R(1) Rl] wf_root(2) [OF wf]
  have "R \<in> set (nodes st' root)" by simp
  with sub sup evolvesD(2) [OF ev Rl] show ?thesis by blast
qed

lemma less_3: "(i::nat) < 3 \<longleftrightarrow> i = 0 \<or> i = 1 \<or> i = 2"
  by auto

lemma wf_flat_store: "well_formed flat_store 0"
  by (simp add: well_formed_def children_ok_def parents_ok_def leaves_ok_def root_ok_def
      flat_store_def less_3 isContainer_def)

text \<open>
  C6. A visit returns the store it was given, unchanged, when the visited rule's parent
  is the root or the rule has no declaration child. In particular a rule that is a child
  of the root and holds declarations only is still a child of the root when the whole
  transform returns, with the same selector text and the same children.
\<close>

theorem visitRule_frame:
  "(parent st R = Some P \<and> R \<in> set (nodes st P) \<and> (type st P = Root \<or> \<not> has_decl st R)
      \<longrightarrow> visitRule (Suc n) root R st = Returns st)
   \<and> (OnceExit m root st = Returns st' \<and> well_formed st root
        \<and> R \<in> set (nodes st root) \<and> type st R = Rule \<and> nodes st R \<noteq> []
        \<and> (\<forall>d\<in>set (nodes st R). type st d = Decl)
      \<longrightarrow> R \<in> set (nodes st' root) \<and> selector st' R = selector st R
          \<and> set (nodes st' R) = set (nodes st R))"
  using visitRule_skip [of st R P n root] root_rule_survives [of m root st st' R] by blast


theorem visitRule_frame_witness:
  "parent flat_store 1 = Some 0 \<and> 1 \<in> set (nodes flat_store 0) \<and> type flat_store 0 = Root
   \<and> visitRule (Suc 0) 0 1 flat_store = Returns flat_store
   \<and> well_formed flat_store 0 \<and> type flat_store 1 = Rule \<and> nodes flat_store 1 = [2]
   \<and> type flat_store 2 = Decl
   \<and> (\<exists>st'. OnceExit (Suc (Suc (Suc (Suc (Suc 0))))) 0 flat_store = Returns st'
         \<and> 1 \<in> set (nodes st' 0) \<and> selector st' 1 = Some ''.a'' \<and> set (nodes st' 1) = {2})"
proof -
  have facts: "parent flat_store 1 = Some 0" "1 \<in> set (nodes flat_store 0)"
    "type flat_store 0 = Root" "type flat_store 1 = Rule" "nodes flat_store 1 = [2]"
    "type flat_store 2 = Decl" "selector flat_store 1 = Some ''.a''"
    by (simp_all add: flat_store_def)
  have "\<exists>st'. OnceExit (Suc (Suc (Suc (Suc (Suc 0))))) 0 flat_store = Returns st'"
    by (simp add: flat_store_def eval_simps)
  then obtain st' where
    run: "OnceExit (Suc (Suc (Suc (Suc (Suc 0))))) 0 flat_store = Returns st'" by blast
  from visitRule_frame [of flat_store 1 0 0 0 "Suc (Suc (Suc (Suc (Suc 0))))" st']
    run facts wf_flat_store
  show ?thesis by auto
qed

section \<open>One promoting visit\<close>


lemma nested_store_facts:
  "parent nested_store 2 = Some 1" "type nested_store 1 \<noteq> Root" "has_decl nested_store 2"
  "fresh nested_store = 4" "type nested_store 1 = Rule" "nodes nested_store 1 = [2]"
  "parent nested_store 1 = Some 0" "nodes nested_store 0 = [1]"
  "buildFlattenedSelectors nested_store (Some 2) = Some [''.a .b'']"
  by (simp_all add: nested_store_def has_decl_def eval_simps)

lemma nested_store_tree:
  "tree_at nested_store 0 2 (Node Rule (Some ''.b'') [] [Node Decl None ''x: y'' []])"
proof -
  have "tree_at nested_store 0 3 (Node Decl None ''x: y'' [])"
    by (rule tree_at.intros) (simp_all add: nested_store_def)
  then have "list_all2 (tree_at nested_store 0) (nodes nested_store 2) [Node Decl None ''x: y'' []]"
    by (simp add: nested_store_def)
  then show ?thesis
    by (rule tree_at.intros [rotated 5]) (simp_all add: nested_store_def)
qed

text \<open>
  \<^verbatim>\<open>xs.join(sep)\<close>, stated without the recursion of \<open>join\<close>: the first element, then the
  separator before each further element.
\<close>

lemma join_concat:
  "join xs sep = (case xs of [] \<Rightarrow> [] | x # ys \<Rightarrow> x @ concat (map (\<lambda>y. sep @ y) ys))"
proof (induction xs sep rule: join.induct)
  case (3 x y ys sep)
  then show ?case by simp
qed simp_all

lemma wf_cross: "well_formed cross_store 0"
  by (simp add: well_formed_def children_ok_def parents_ok_def leaves_ok_def root_ok_def
      cross_store_def less_4 isContainer_def)

lemma cross_store_facts:
  "parent cross_store 2 = Some 1" "type cross_store 1 \<noteq> Root" "has_decl cross_store 2"
  "fresh cross_store = 4" "nodes cross_store 0 = [1]"
  "buildFlattenedSelectors cross_store (Some 2)
     = Some [''.a:hover'', ''.a:focus'', ''.b:hover'', ''.b:focus'']"
  by (simp_all add: cross_store_def has_decl_def eval_simps)

lemma cross_store_tree:
  "tree_at cross_store 0 2 (Node Rule (Some ''&:hover, &:focus'') [] [Node Decl None ''x: y'' []])"
proof -
  have "tree_at cross_store 0 3 (Node Decl None ''x: y'' [])"
    by (rule tree_at.intros) (simp_all add: cross_store_def)
  then have "list_all2 (tree_at cross_store 0) (nodes cross_store 2) [Node Decl None ''x: y'' []]"
    by (simp add: cross_store_def)
  then show ?thesis
    by (rule tree_at.intros [rotated 5]) (simp_all add: cross_store_def)
qed

text \<open>
  C4. A visit of a rule \<open>R\<close> that has a declaration child and whose parent \<open>P\<close> is not the
  root returns, given fuel for the deep copy and for the loop over the parents. In the
  store it returns, the root has a new last-allocated child, the duplicate: a rule whose
  selector text is \<open>buildFlattenedSelectors R\<close> joined with commas (the first selector,
  then a comma before each further one), with the other properties and the children (as
  trees) of \<open>R\<close>; and \<open>R\<close> is no longer a child of \<open>P\<close> and has no parent.
\<close>

theorem visitRule_promotes:
  assumes wf: "well_formed st root"
    and par: "parent st R = Some P" and notroot: "type st P \<noteq> Root"
    and decl: "has_decl st R"
    and tr: "tree_at st 0 R (Node Rule sel pr ks)"
    and fs: "buildFlattenedSelectors st (Some R) = Some sels"
    and fuel: "fresh st + 2 \<le> n" "height (Node Rule sel pr ks) \<le> n"
  shows "\<exists>st'. visitRule n root R st = Returns st'
      \<and> fresh st \<in> set (nodes st' root) \<and> fresh st \<notin> set (nodes st root)
      \<and> parent st' (fresh st) = Some root
      \<and> tree_at st' 0 (fresh st) (Node Rule (Some (join sels '','')) pr ks)
      \<and> selector st' (fresh st)
          = Some (case sels of [] \<Rightarrow> [] | s # ss \<Rightarrow> s @ concat (map (\<lambda>t. '','' @ t) ss))
      \<and> R \<notin> set (nodes st' P) \<and> parent st' R = None"
proof -
  from visitRule_promote_result [OF assms] obtain st' where
    run: "visitRule n root R st = Returns st'"
    and res: "fresh st \<in> set (nodes st' root)" "fresh st \<notin> set (nodes st root)"
      "parent st' (fresh st) = Some root"
      "tree_at st' 0 (fresh st) (Node Rule (Some (join sels '','')) pr ks)"
      "R \<notin> set (nodes st' P)" "parent st' R = None"
    by blast
  from res(4) have "selector st' (fresh st) = Some (join sels '','')"
    by (auto elim: tree_at.cases)
  then have "selector st' (fresh st)
          = Some (case sels of [] \<Rightarrow> [] | s # ss \<Rightarrow> s @ concat (map (\<lambda>t. '','' @ t) ss))"
    by (simp only: join_concat)
  with run res show ?thesis by blast
qed

theorem visitRule_promotes_witness:
  "well_formed cross_store 0 \<and> parent cross_store 2 = Some 1 \<and> type cross_store 1 \<noteq> Root
   \<and> has_decl cross_store 2
   \<and> tree_at cross_store 0 2 (Node Rule (Some ''&:hover, &:focus'') [] [Node Decl None ''x: y'' []])
   \<and> buildFlattenedSelectors cross_store (Some 2)
        = Some [''.a:hover'', ''.a:focus'', ''.b:hover'', ''.b:focus'']
   \<and> (\<exists>st'. visitRule 6 0 2 cross_store = Returns st'
        \<and> 4 \<in> set (nodes st' 0) \<and> 4 \<notin> set (nodes cross_store 0)
        \<and> parent st' 4 = Some 0
        \<and> tree_at st' 0 4 (Node Rule (Some ''.a:hover,.a:focus,.b:hover,.b:focus'') []
              [Node Decl None ''x: y'' []])
        \<and> selector st' 4 = Some ''.a:hover,.a:focus,.b:hover,.b:focus''
        \<and> 2 \<notin> set (nodes st' 1) \<and> parent st' 2 = None)"
proof -
  have fuel: "fresh cross_store + 2 \<le> 6"
    "height (Node Rule (Some ''&:hover, &:focus'') [] [Node Decl None ''x: y'' []]) \<le> 6"
    by (simp_all add: cross_store_facts)
  from visitRule_promotes [OF wf_cross cross_store_facts(1,2,3) cross_store_tree
      cross_store_facts(6) fuel]
  show ?thesis
    using wf_cross cross_store_facts cross_store_tree by simp
qed



text \<open>
  C10. The loop also removes a rule at root level that has become empty: when the
  promoted rule \<open>R\<close> was the only child of a rule \<open>P\<close> whose parent is the root, the visit
  returns a store in which \<open>P\<close> is no longer a child of the root. (For an ancestor further
  up that was emptied by the loop itself, this is the statement of
  \<open>removeEmptyParents_settled\<close> at that ancestor.)
\<close>

theorem root_rule_shell_removed:
  assumes wf: "well_formed st root"
    and par: "parent st R = Some P" and decl: "has_decl st R"
    and tr: "tree_at st 0 R (Node Rule sel pr ks)"
    and fs: "buildFlattenedSelectors st (Some R) = Some sels"
    and fuel: "fresh st + 2 \<le> n" "height (Node Rule sel pr ks) \<le> n"
    and P: "type st P = Rule" "nodes st P = [R]" "parent st P = Some root"
  shows "\<exists>st'. visitRule n root R st = Returns st' \<and> P \<in> set (nodes st root)
      \<and> P \<notin> set (nodes st' root) \<and> parent st' P = None \<and> nodes st' P = []"
proof -
  have notroot: "type st P \<noteq> Root" using P(1) by simp
  from visitRule_promote_result [OF wf par notroot decl tr fs fuel]
  obtain st' where run: "visitRule n root R st = Returns st'" by blast
  from tr have R: "R < fresh st" by (auto elim: tree_at.cases)
  have Pl: "P < fresh st" using wf_parent [OF wf R par] by simp
  have "P \<in> set (nodes st root)" using wf_parent [OF wf Pl P(3)] by simp
  with visitRule_empties_root_rule [OF run wf par decl R P] run show ?thesis by blast
qed

theorem root_rule_shell_removed_witness:
  "well_formed nested_store 0 \<and> parent nested_store 2 = Some 1 \<and> has_decl nested_store 2
   \<and> type nested_store 1 = Rule \<and> nodes nested_store 1 = [2] \<and> parent nested_store 1 = Some 0
   \<and> (\<exists>st'. visitRule 6 0 2 nested_store = Returns st' \<and> 1 \<in> set (nodes nested_store 0)
        \<and> 1 \<notin> set (nodes st' 0) \<and> parent st' 1 = None \<and> nodes st' 1 = [])"
proof -
  have fuel: "fresh nested_store + 2 \<le> 6"
    "height (Node Rule (Some ''.b'') [] [Node Decl None ''x: y'' []]) \<le> 6"
    by (simp_all add: nested_store_facts)
  from root_rule_shell_removed [OF wf_nested nested_store_facts(1,3) nested_store_tree
      nested_store_facts(9) fuel nested_store_facts(5,6,7)]
  show ?thesis
    using wf_nested nested_store_facts by simp
qed

section \<open>The walk over a flat tree\<close>

lemma same_tree_refl: "same_tree st st"
  by (simp add: same_tree_def)

lemma same_tree_trans: "same_tree st st1 \<Longrightarrow> same_tree st1 st2 \<Longrightarrow> same_tree st st2"
  by (simp add: same_tree_def)

lemma same_tree_well_formed:
  assumes "same_tree st st'" and "well_formed st root"
  shows "well_formed st' root"
proof -
  from assms(1) have "st' = st\<lparr>indexes := indexes st', lastEach := lastEach st'\<rparr>"
    by (simp add: same_tree_def)
  then have "well_formed st' root = well_formed st root"
    by (metis well_formed_indexes_update well_formed_lastEach_update)
  with assms(2) show ?thesis by simp
qed

lemma same_tree_flat:
  assumes "same_tree st st'" and "flat st c"
  shows "flat st' c"
proof -
  from assms(1) have "nodes st' = nodes st" "type st' = type st" by (simp_all add: same_tree_def)
  from flat_same(1) [OF this, of c] assms(2) show ?thesis by simp
qed

lemma same_tree_tree_at:
  assumes "same_tree st st'" and "tree_at st lo i t"
  shows "tree_at st' lo i t"
  using assms(2) by (rule tree_at_frame) (use assms(1) in \<open>simp_all add: same_tree_def\<close>)

lemma iterators_kept_refl: "iterators_kept c it st st"
  by (simp add: iterators_kept_def)

lemma iterators_keptD:
  assumes "iterators_kept c it st st'"
  shows "lastEach st c' \<le> lastEach st' c'"
    and "it' \<le> lastEach st c' \<Longrightarrow> c' = c \<longrightarrow> it' \<noteq> it \<Longrightarrow> indexes st' c' it' = indexes st c' it'"
  using assms unfolding iterators_kept_def by blast+

lemma each_unfold:
  assumes "indexes st container iterator = Some index" and "index < int (length (nodes st container))"
    and "\<not> index < 0" and "child = nodes st container ! nat index"
  shows "each (Suc n) root container iterator st =
            and_then (if type st child = Rule then visitRule n root child st else Returns st)
              (\<lambda>st1. and_then
                 (if isContainer (type st1 child) then walkRules n root child st1 else Returns st1)
                 (\<lambda>st2. each n root container iterator
                    (st2\<lparr>indexes := (indexes st2)(container := (indexes st2 container)(iterator :=
                       map_option (\<lambda>i. i + 1) (indexes st2 container iterator)))\<rparr>)))"
  using assms(1,2,3) unfolding assms(4) by (simp add: Let_def)

lemma each_flat:
  assumes W: "\<And>k n c st. k \<in> set ks0 \<Longrightarrow> well_formed st root \<Longrightarrow> tree_at st 0 c k \<Longrightarrow> flat st c
      \<Longrightarrow> walk_fuel k \<le> n
      \<Longrightarrow> \<exists>st'. walkRules n root c st = Returns st' \<and> same_tree st st'
            \<and> iterators_kept c (Suc (lastEach st c)) st st'"
  shows "set ks \<subseteq> set ks0 \<Longrightarrow> well_formed st root \<Longrightarrow> c < fresh st \<Longrightarrow> flat st c
    \<Longrightarrow> indexes st c it = Some idx \<Longrightarrow> 0 \<le> idx
    \<Longrightarrow> list_all2 (tree_at st 0) (drop (nat idx) (nodes st c)) ks
    \<Longrightarrow> it \<le> lastEach st c \<Longrightarrow> (\<forall>k\<in>set ks. walk_fuel k \<le> m) \<Longrightarrow> Suc (length ks + m) \<le> n
    \<Longrightarrow> \<exists>st'. each n root c it st = Returns st' \<and> same_tree st st' \<and> iterators_kept c it st st'"
proof (induction ks arbitrary: n st idx)
  case Nil
  from Nil.prems(10) obtain n' where n: "n = Suc n'" by (cases n) auto
  from Nil.prems(7) have "length (nodes st c) \<le> nat idx" by simp
  with Nil.prems(6) have "\<not> idx < int (length (nodes st c))" by linarith
  with Nil.prems(5) have "each n root c it st = Returns st" by (simp add: n)
  then show ?case by (simp add: same_tree_refl iterators_kept_refl)
next
  case (Cons k rest)
  note wf = Cons.prems(2) and c = Cons.prems(3) and fl = Cons.prems(4) and ix = Cons.prems(5)
    and pos = Cons.prems(6) and it = Cons.prems(8)
  from Cons.prems(10) obtain n' where n: "n = Suc n'" and n': "Suc (length rest + m) \<le> n'"
    by (cases n) auto
  from n' obtain n'' where n'': "n' = Suc n''" by (cases n') auto
  define child where "child = nodes st c ! nat idx"
  from Cons.prems(7) obtain z zs where dr: "drop (nat idx) (nodes st c) = z # zs"
    and tz: "tree_at st 0 z k" and tzs: "list_all2 (tree_at st 0) zs rest"
    by (auto simp add: list_all2_Cons2)
  from dr have lt: "nat idx < length (nodes st c)"
    by (cases "nat idx < length (nodes st c)") auto
  from Cons_nth_drop_Suc [OF lt] dr have z: "z = child" and zs: "zs = drop (Suc (nat idx)) (nodes st c)"
    by (simp_all add: child_def)
  from lt pos have lt': "idx < int (length (nodes st c))" by linarith
  from pos have npos: "\<not> idx < 0" by simp
  have mem: "child \<in> set (nodes st c)" using lt by (simp add: child_def)
  from wf_child [OF wf c mem] have par: "parent st child = Some c" by simp
  from fl have cl: "clean st c" and flc: "flat st child"
    using mem by (subst (asm) flat_unfold, simp)+
  have v: "(if type st child = Rule then visitRule n' root child st else Returns st) = Returns st"
  proof (cases "type st child = Rule")
    case True
    from cl mem have "\<not> nested_decl_rule st c child" by (simp add: clean_def)
    with True have "type st c = Root \<or> \<not> has_decl st child" by (auto simp add: nested_decl_rule_def)
    from visitRule_skip [OF par mem this] True show ?thesis by (simp add: n'')
  next
    case False
    then show ?thesis by simp
  qed
  have "\<exists>st2. (if isContainer (type st child) then walkRules n' root child st else Returns st) = Returns st2
      \<and> same_tree st st2 \<and> iterators_kept child (Suc (lastEach st child)) st st2"
  proof (cases "isContainer (type st child)")
    case True
    have kin: "k \<in> set ks0" using Cons.prems(1) by simp
    have "walk_fuel k \<le> n'" using Cons.prems(9) n' by auto
    from W [OF kin wf tz [unfolded z] flc this] True show ?thesis by simp
  next
    case False
    then show ?thesis by (simp add: same_tree_refl iterators_kept_refl)
  qed
  then obtain st2 where
    w: "(if isContainer (type st child) then walkRules n' root child st else Returns st) = Returns st2"
    and same2: "same_tree st st2" and kept2: "iterators_kept child (Suc (lastEach st child)) st st2"
    by blast
  have "c = child \<longrightarrow> it \<noteq> Suc (lastEach st child)" using it by auto
  from iterators_keptD(2) [OF kept2 it this] ix have ix2: "indexes st2 c it = Some idx" by simp
  define st3 where "st3 = st2\<lparr>indexes := (indexes st2)(c := (indexes st2 c)(it :=
                       map_option (\<lambda>i. i + 1) (indexes st2 c it)))\<rparr>"
  have same3: "same_tree st st3" using same2 by (simp add: same_tree_def st3_def)
  have wf3: "well_formed st3 root" by (rule same_tree_well_formed [OF same3 wf])
  have c3: "c < fresh st3" using same3 c by (simp add: same_tree_def)
  have fl3: "flat st3 c" by (rule same_tree_flat [OF same3 fl])
  have ix3: "indexes st3 c it = Some (idx + 1)" by (simp add: st3_def ix2)
  have pos3: "0 \<le> idx + 1" using pos by simp
  have nat3: "nat (idx + 1) = Suc (nat idx)" using pos by simp
  have n3: "nodes st3 = nodes st" using same3 by (simp add: same_tree_def)
  have "list_all2 (tree_at st3 0) zs rest"
    using tzs by (rule list_all2_mono) (rule same_tree_tree_at [OF same3])
  then have tr3: "list_all2 (tree_at st3 0) (drop (nat (idx + 1)) (nodes st3 c)) rest"
    by (simp add: nat3 n3 zs)
  have le2: "lastEach st c \<le> lastEach st2 c" by (rule iterators_keptD(1) [OF kept2])
  have it3: "it \<le> lastEach st3 c" using it le2 by (simp add: st3_def)
  have sub: "set rest \<subseteq> set ks0" using Cons.prems(1) by simp
  have fu: "\<forall>k\<in>set rest. walk_fuel k \<le> m" using Cons.prems(9) by simp
  from Cons.IH [OF sub wf3 c3 fl3 ix3 pos3 tr3 it3 fu n'] obtain st' where
    e: "each n' root c it st3 = Returns st'" and same': "same_tree st3 st'"
    and kept': "iterators_kept c it st3 st'"
    by blast
  have run: "each n root c it st = Returns st'"
    unfolding n each_unfold [OF ix lt' npos child_def] v and_then_simps w
    using e by (simp add: st3_def)
  have kept: "iterators_kept c it st st'"
    unfolding iterators_kept_def
  proof (intro allI conjI impI)
    fix c'
    have "lastEach st c' \<le> lastEach st2 c'" by (rule iterators_keptD(1) [OF kept2])
    also have "\<dots> = lastEach st3 c'" by (simp add: st3_def)
    also have "\<dots> \<le> lastEach st' c'" by (rule iterators_keptD(1) [OF kept'])
    finally show "lastEach st c' \<le> lastEach st' c'" .
  next
    fix c' it'
    assume a: "it' \<le> lastEach st c' \<and> (c' = c \<longrightarrow> it' \<noteq> it)"
    have l2: "lastEach st c' \<le> lastEach st2 c'" by (rule iterators_keptD(1) [OF kept2])
    have "it' \<le> lastEach st3 c'" using a l2 by (simp add: st3_def)
    from iterators_keptD(2) [OF kept' this] a
    have "indexes st' c' it' = indexes st3 c' it'" by simp
    also have "\<dots> = indexes st2 c' it'" using a by (auto simp add: st3_def)
    also have "\<dots> = indexes st c' it'"
    proof -
      have "c' = child \<longrightarrow> it' \<noteq> Suc (lastEach st child)" using a by auto
      with iterators_keptD(2) [OF kept2, of it' c'] a show ?thesis by blast
    qed
    finally show "indexes st' c' it' = indexes st c' it'" .
  qed
  from run same_tree_trans [OF same3 same'] kept show ?case by blast
qed

lemma fold_max_bound: "\<forall>x\<in>set xs. x \<le> fold max xs (a::nat)"
proof (induction xs arbitrary: a)
  case Nil
  show ?case by simp
next
  case (Cons x xs)
  have "x \<le> max x a" by simp
  also have "\<dots> \<le> fold max xs (max x a)" by (rule fold_max_ge)
  finally show ?case using Cons.IH [of "max x a"] by simp
qed

lemma walkRules_flat:
  "well_formed st root \<Longrightarrow> tree_at st 0 c t \<Longrightarrow> flat st c \<Longrightarrow> walk_fuel t \<le> n
    \<Longrightarrow> \<exists>st'. walkRules n root c st = Returns st' \<and> same_tree st st'
          \<and> iterators_kept c (Suc (lastEach st c)) st st'"
proof (induction t arbitrary: n c st)
  case (Node ty sel pr ks)
  note wf = Node.prems(1) and fl = Node.prems(3)
  define m where "m = fold max (map walk_fuel ks) 0"
  from Node.prems(4) obtain n' where n: "n = Suc n'" and n': "Suc (length ks + m) \<le> n'"
    by (cases n) (auto simp add: m_def)
  from Node.prems(2) have c: "c < fresh st" and kids: "list_all2 (tree_at st 0) (nodes st c) ks"
    by (auto elim: tree_at.cases)
  define it where "it = lastEach st c + 1"
  define st1 where "st1 = st\<lparr>lastEach := (lastEach st)(c := it),
      indexes := (indexes st)(c := (indexes st c)(it := Some 0))\<rparr>"
  have same1: "same_tree st st1" by (simp add: same_tree_def st1_def)
  have wf1: "well_formed st1 root" by (rule same_tree_well_formed [OF same1 wf])
  have c1: "c < fresh st1" using c by (simp add: st1_def)
  have fl1: "flat st1 c" by (rule same_tree_flat [OF same1 fl])
  have ix1: "indexes st1 c it = Some 0" by (simp add: st1_def)
  have "list_all2 (tree_at st1 0) (nodes st c) ks"
    using kids by (rule list_all2_mono) (rule same_tree_tree_at [OF same1])
  then have tr1: "list_all2 (tree_at st1 0) (drop (nat 0) (nodes st1 c)) ks"
    by (simp add: st1_def)
  have it1: "it \<le> lastEach st1 c" by (simp add: st1_def)
  have fu: "\<forall>k\<in>set ks. walk_fuel k \<le> m"
    using fold_max_bound [of "map walk_fuel ks" 0] by (simp add: m_def)
  have "\<exists>st2. each n' root c it st1 = Returns st2 \<and> same_tree st1 st2
      \<and> iterators_kept c it st1 st2"
  proof (rule each_flat [where ks0 = ks, OF _ subset_refl wf1 c1 fl1 ix1 order_refl tr1 it1 fu n'])
    fix k n c st
    assume "k \<in> set ks" "well_formed st root" "tree_at st 0 c k" "flat st c" "walk_fuel k \<le> n"
    then show "\<exists>st'. walkRules n root c st = Returns st' \<and> same_tree st st'
            \<and> iterators_kept c (Suc (lastEach st c)) st st'"
      by (rule Node.IH)
  qed
  then obtain st2 where e: "each n' root c it st1 = Returns st2" and same2: "same_tree st1 st2"
    and kept2: "iterators_kept c it st1 st2"
    by blast
  define st' where "st' = st2\<lparr>indexes := (indexes st2)(c := (indexes st2 c)(it := None))\<rparr>"
  have run: "walkRules n root c st = Returns st'"
    using e unfolding n st'_def st1_def it_def by (simp add: Let_def)
  have same': "same_tree st st'"
    using same_tree_trans [OF same1 same2] by (simp add: same_tree_def st'_def)
  have kept: "iterators_kept c (Suc (lastEach st c)) st st'"
    unfolding iterators_kept_def
  proof (intro allI conjI impI)
    fix c'
    have "lastEach st c' \<le> lastEach st1 c'" by (simp add: st1_def it_def)
    also have "\<dots> \<le> lastEach st2 c'" by (rule iterators_keptD(1) [OF kept2])
    finally show "lastEach st c' \<le> lastEach st' c'" by (simp add: st'_def)
  next
    fix c' it'
    assume a: "it' \<le> lastEach st c' \<and> (c' = c \<longrightarrow> it' \<noteq> Suc (lastEach st c))"
    then have ne: "c' = c \<longrightarrow> it' \<noteq> it" by (simp add: it_def)
    have "lastEach st c' \<le> lastEach st1 c'" by (simp add: st1_def it_def)
    with a have le1: "it' \<le> lastEach st1 c'" by simp
    have "indexes st' c' it' = indexes st2 c' it'" using ne by (auto simp add: st'_def)
    also have "\<dots> = indexes st1 c' it'" by (rule iterators_keptD(2) [OF kept2 le1 ne])
    also have "\<dots> = indexes st c' it'" using ne by (auto simp add: st1_def)
    finally show "indexes st' c' it' = indexes st c' it'" .
  qed
  from run same' kept show ?case by blast
qed

text \<open>
  On a flat tree no visit changes the tree: with fuel for the walk, the transform
  returns a store that holds the same tree; only the iterator bookkeeping differs.
\<close>

lemma OnceExit_flat_unchanged:
  assumes "well_formed st root" and "tree_at st 0 root t" and "flat st root" and "walk_fuel t \<le> n"
  shows "\<exists>st'. OnceExit n root st = Returns st' \<and> same_tree st st'"
  using walkRules_flat [OF assms] by (auto simp add: OnceExit_def)

lemma flat_store_tree:
  "tree_at flat_store 0 0 (Node Root None [] [Node Rule (Some ''.a'') [] [Node Decl None ''x: y'' []]])"
  by (intro tree_at.intros) (simp_all add: flat_store_def tree_at.intros)

lemma flat_store_flat: "flat flat_store 0"
proof -
  have "flat flat_store 2" by (rule flat_leaf) (simp add: flat_store_def)
  then have "flat flat_store 1"
    by (subst flat_unfold) (simp add: clean_def nested_decl_rule_def flat_store_def)
  then show ?thesis
    by (subst flat_unfold) (simp add: clean_def nested_decl_rule_def flat_store_def)
qed

lemma OnceExit_flat_unchanged_example:
  "\<exists>st'. OnceExit 8 0 flat_store = Returns st' \<and> same_tree flat_store st'"
  by (rule OnceExit_flat_unchanged [OF wf_flat_store flat_store_tree flat_store_flat]) simp

section \<open>A rule inside an at-rule\<close>

lemma wf_media_store: "well_formed media_store 0"
  by (simp add: well_formed_def children_ok_def parents_ok_def leaves_ok_def root_ok_def
      media_store_def less_4 isContainer_def)

lemma media_store_ancestor:
  "ancestor media_store p a \<Longrightarrow> p \<le> 1 \<Longrightarrow> type media_store a \<noteq> Rule"
proof (induction rule: ancestor.induct)
  case (anc_self x)
  then have "x = 0 \<or> x = 1" by auto
  then show ?case by (auto simp add: media_store_def)
next
  case (anc_step x p a)
  from anc_step.prems have "x = 0 \<or> x = 1" by auto
  with anc_step.hyps(1) have "p = 0" by (auto simp add: media_store_def)
  with anc_step.IH show ?case by simp
qed

lemma media_store_rule_flat: "rule_flat media_store"
proof -
  have "\<not> nested_in_rule media_store x" for x
  proof
    assume "nested_in_rule media_store x"
    then obtain p a where x: "type media_store x = Rule" and p: "parent media_store x = Some p"
      and a: "ancestor media_store p a" "type media_store a = Rule"
      by (auto simp add: nested_in_rule_def)
    from x have "x = 2" by (simp add: media_store_def split: if_splits)
    with p have "p = 1" by (simp add: media_store_def)
    with media_store_ancestor [OF a(1)] a(2) show False by simp
  qed
  then show ?thesis by (simp add: rule_flat_def)
qed

text \<open>
  C8. On the tree of \<^verbatim>\<open>@media print { .a { x: y } }\<close>, which is well formed
  (\<open>wf_media_store\<close>) and has no rule inside a rule (\<open>media_store_rule_flat\<close>), the
  transform returns a changed tree: the rule is gone from the at-rule, which is left
  empty, and a copy of it with selector text \<^verbatim>\<open>.a\<close> and a copy of the declaration is the
  new last child of the root. (Where no container other than the root holds a rule with
  declarations, the transform leaves the tree as it is: \<open>OnceExit_flat_unchanged\<close>.)
\<close>

theorem OnceExit_at_rule:
  "\<exists>st'. OnceExit (Suc (Suc (Suc (Suc (Suc (Suc (Suc (Suc 0)))))))) 0 media_store = Returns st'
     \<and> nodes media_store 0 = [1] \<and> nodes media_store 1 = [2] \<and> type media_store 1 = AtRule
     \<and> nodes st' 0 = [1, 4] \<and> nodes st' 1 = [] \<and> parent st' 2 = None
     \<and> type st' 4 = Rule \<and> selector st' 4 = Some ''.a'' \<and> nodes st' 4 = [5]
     \<and> type st' 5 = Decl \<and> props st' 5 = ''x: y''"
  by (simp add: media_store_def eval_simps)

end
